theory Spec2Isabelle
  imports Main "HOL-Library.Word"
begin

unbundle bit_operations_syntax

section \<open>Values of the Go program\<close>

text \<open>
  The package under study is \<^verbatim>\<open>term\<close> (files \<^verbatim>\<open>term.go\<close> and \<^verbatim>\<open>get.go\<close>).  Both files are
  present in two revisions: one built for Linux only, which calls \<^verbatim>\<open>unix.TCGETS\<close> and
  \<^verbatim>\<open>unix.TCSETS\<close> directly, and one built for all Unix systems, which goes through the
  constants \<^verbatim>\<open>termiosGet\<close> and \<^verbatim>\<open>termiosSet\<close>.  Where the two revisions differ the
  model takes the revision as a parameter.
\<close>

type_synonym byte = "8 word"

text \<open>A Go \<^verbatim>\<open>rune\<close> (an \<^verbatim>\<open>int32\<close>); every rune the decoder produces lies in \<open>0 .. 0x10FFFF\<close>.\<close>

type_synonym rune = int

text \<open>Go \<^verbatim>\<open>error\<close> values that occur: \<^verbatim>\<open>io.EOF\<close> and \<^verbatim>\<open>syscall.Errno\<close> numbers.\<close>

datatype error = EOF | Errno nat

definition EIO :: error where "EIO = Errno 5"
definition EBADF :: error where "EBADF = Errno 9"
definition ENOTTY :: error where "ENOTTY = Errno 25"

datatype revision = LinuxOnly | AllUnix

text \<open>
  \<^verbatim>\<open>unix.Termios\<close> as \<^verbatim>\<open>golang.org/x/sys/unix\<close> declares it for Linux: four flag words,
  the line discipline, the control characters (an array of 19 bytes) and two speeds.
\<close>

record termios =
  Iflag :: "32 word"
  Oflag :: "32 word"
  Cflag :: "32 word"
  Lflag :: "32 word"
  Line :: byte
  Cc :: "byte list"
  Ispeed :: "32 word"
  Ospeed :: "32 word"

text \<open>The constants of \<^verbatim>\<open>golang.org/x/sys/unix\<close> the package uses, with their Linux values.\<close>

definition VERASE :: nat where "VERASE = 2"
definition VKILL :: nat where "VKILL = 3"
definition VEOF :: nat where "VEOF = 4"
definition VTIME :: nat where "VTIME = 5"
definition VMIN :: nat where "VMIN = 6"
definition VWERASE :: nat where "VWERASE = 14"

definition ICANON :: "32 word" where "ICANON = 0x2"
definition ECHO :: "32 word" where "ECHO = 0x8"
definition ICRNL :: "32 word" where "ICRNL = 0x100"

definition maskChar :: byte where "maskChar = 0x2A"
definition linefeed :: byte where "linefeed = 0x0A"
definition space :: byte where "space = 0x20"

datatype EchoMode = EchoNormal | EchoNone | EchoMask

section \<open>The terminal and the system calls\<close>

text \<open>
  The world the package acts on: the discipline configuration of the terminal behind
  standard output, and the bytes written to standard output so far.
\<close>

record world =
  tty :: termios
  screen :: "byte list"

text \<open>One answer of \<^verbatim>\<open>read(2)\<close> on standard input: an error, or the bytes delivered.\<close>

datatype rd = RdErr error | RdData "byte list"

text \<open>
  What the surroundings supply during one call of the package.  From the kernel: per file
  descriptor whether the get-configuration ioctl fails, whether the two set-configuration
  ioctls of \<^verbatim>\<open>GetBytes\<close> fail (the one applying the derived configuration and the deferred
  one), and the answers to the successive reads of standard input.  From the Go runtime:
  \<open>graphicAbove\<close>, the membership test of the table \<^verbatim>\<open>unicode.GraphicRanges\<close> for code
  points above Latin-1.
\<close>

record sys =
  tcgetErr :: "nat \<Rightarrow> error option"
  tcsetErr :: "error option"
  tcsetDeferredErr :: "error option"
  stdinReads :: "rd list"
  graphicAbove :: "rune \<Rightarrow> bool"

definition stdinFd :: nat where "stdinFd = 0"
definition stdoutFd :: nat where "stdoutFd = 1"

text \<open>\<^verbatim>\<open>unix.IoctlGetTermios\<close>: the error, or a copy of the current configuration.\<close>

definition IoctlGetTermios :: "sys \<Rightarrow> world \<Rightarrow> nat \<Rightarrow> error + termios" where
  "IoctlGetTermios s w fd = (case tcgetErr s fd of Some e \<Rightarrow> Inl e | None \<Rightarrow> Inr (tty w))"

text \<open>\<^verbatim>\<open>unix.IoctlSetTermios\<close>: on failure the terminal keeps its configuration.\<close>

definition IoctlSetTermios :: "error option \<Rightarrow> termios \<Rightarrow> world \<Rightarrow> error option \<times> world" where
  "IoctlSetTermios fault t w = (case fault of Some e \<Rightarrow> (Some e, w) | None \<Rightarrow> (None, w\<lparr>tty := t\<rparr>))"

text \<open>
  \<^verbatim>\<open>IsTerminal\<close> (term.go), the same in both revisions:
  \<^verbatim>\<open>_, err := unix.IoctlGetTermios(int(fd), termiosGet); return err != unix.ENOTTY\<close>.
\<close>

definition IsTerminal :: "sys \<Rightarrow> world \<Rightarrow> nat \<Rightarrow> bool" where
  "IsTerminal s w fd = (case IoctlGetTermios s w fd of Inl err \<Rightarrow> err \<noteq> ENOTTY | Inr t \<Rightarrow> True)"

text \<open>\<^verbatim>\<open>checkIsTerminal\<close> panics unless both descriptors pass; \<open>True\<close> means no panic.\<close>

definition checkIsTerminal :: "sys \<Rightarrow> world \<Rightarrow> bool" where
  "checkIsTerminal s w = (IsTerminal s w stdinFd \<and> IsTerminal s w stdoutFd)"

section \<open>Go library functions the package calls\<close>

text \<open>
  \<^verbatim>\<open>unicode/utf8\<close>, \<^verbatim>\<open>unicode\<close> and \<^verbatim>\<open>strconv\<close> belong to the Go distribution, not to the
  package.  They are written down here after the library: \<^verbatim>\<open>DecodeRune\<close> with its table
  \<^verbatim>\<open>first\<close> and its accept ranges, \<^verbatim>\<open>DecodeLastRune\<close> with its backward search for a
  start byte, \<^verbatim>\<open>RuneCount\<close> (an erroneous or short encoding counts as one rune of width
  one byte), \<^verbatim>\<open>IsGraphic\<close> and \<^verbatim>\<open>Itoa\<close>.
\<close>

definition RuneError :: rune where "RuneError = 0xFFFD"
definition locb :: byte where "locb = 0x80"
definition hicb :: byte where "hicb = 0xBF"

text \<open>
  The table \<^verbatim>\<open>first\<close>: \<open>0xF0\<close> for an ASCII byte, \<open>0xF1\<close> for a byte that cannot start
  an encoding; otherwise the low three bits are the size of the encoding and the high four
  bits are the index of the accept range of the second byte.
\<close>

definition first :: "byte \<Rightarrow> byte" where
  "first b =
     (if b < 0x80 then 0xF0
      else if b < 0xC2 then 0xF1
      else if b < 0xE0 then 0x02
      else if b = 0xE0 then 0x13
      else if b < 0xED then 0x03
      else if b = 0xED then 0x23
      else if b < 0xF0 then 0x03
      else if b = 0xF0 then 0x34
      else if b < 0xF4 then 0x04
      else if b = 0xF4 then 0x44
      else 0xF1)"

definition acceptRanges :: "nat \<Rightarrow> byte \<times> byte" where
  "acceptRanges i =
     (if i = 0 then (locb, hicb)
      else if i = 1 then (0xA0, hicb)
      else if i = 2 then (locb, 0x9F)
      else if i = 3 then (0x90, hicb)
      else if i = 4 then (locb, 0x8F)
      else (0, 0))"

definition rune2 :: "byte \<Rightarrow> byte \<Rightarrow> rune" where
  "rune2 p0 b1 = uint (push_bit 6 (ucast (p0 AND 0x1F) :: 32 word) OR ucast (b1 AND 0x3F))"

definition rune3 :: "byte \<Rightarrow> byte \<Rightarrow> byte \<Rightarrow> rune" where
  "rune3 p0 b1 b2 =
     uint (push_bit 12 (ucast (p0 AND 0x0F) :: 32 word) OR push_bit 6 (ucast (b1 AND 0x3F))
           OR ucast (b2 AND 0x3F))"

definition rune4 :: "byte \<Rightarrow> byte \<Rightarrow> byte \<Rightarrow> byte \<Rightarrow> rune" where
  "rune4 p0 b1 b2 b3 =
     uint (push_bit 18 (ucast (p0 AND 0x07) :: 32 word) OR push_bit 12 (ucast (b1 AND 0x3F))
           OR push_bit 6 (ucast (b2 AND 0x3F)) OR ucast (b3 AND 0x3F))"

text \<open>\<^verbatim>\<open>utf8.DecodeRune\<close>: the first rune of \<open>p\<close> and its width in bytes.\<close>

definition DecodeRune :: "byte list \<Rightarrow> rune \<times> nat" where
  "DecodeRune p =
     (let n = length p in
      if n < 1 then (RuneError, 0)
      else
        let p0 = p ! 0; x = first p0 in
        if x \<ge> 0xF0 then ((if x = 0xF1 then RuneError else uint p0), 1)
        else
          let sz = unat (x AND 7); accept = acceptRanges (unat (drop_bit 4 x)) in
          if n < sz then (RuneError, 1)
          else
            let b1 = p ! 1 in
            if b1 < fst accept \<or> snd accept < b1 then (RuneError, 1)
            else if sz \<le> 2 then (rune2 p0 b1, 2)
            else
              let b2 = p ! 2 in
              if b2 < locb \<or> hicb < b2 then (RuneError, 1)
              else if sz \<le> 3 then (rune3 p0 b1 b2, 3)
              else
                let b3 = p ! 3 in
                if b3 < locb \<or> hicb < b3 then (RuneError, 1)
                else (rune4 p0 b1 b2 b3, 4))"

definition RuneStart :: "byte \<Rightarrow> bool" where
  "RuneStart b = (b AND 0xC0 \<noteq> 0x80)"

text \<open>
  The loop of \<^verbatim>\<open>DecodeLastRune\<close>:
  \<^verbatim>\<open>for start--; start >= lim; start-- { if RuneStart(p[start]) { break } }\<close>,
  entered with \<open>start\<close> already decremented.
\<close>

function lastStart :: "byte list \<Rightarrow> int \<Rightarrow> int \<Rightarrow> int" where
  "lastStart p lim start =
     (if start \<ge> lim then (if RuneStart (p ! nat start) then start else lastStart p lim (start - 1))
      else start)"
  by pat_completeness auto
termination
  by (relation "measure (\<lambda>(p, lim, start). nat (start - lim + 1))") auto

text \<open>\<^verbatim>\<open>utf8.DecodeLastRune\<close>: the last rune of \<open>p\<close> and its width in bytes.\<close>

definition DecodeLastRune :: "byte list \<Rightarrow> rune \<times> nat" where
  "DecodeLastRune p =
     (let end = int (length p) in
      if end = 0 then (RuneError, 0)
      else
        let start = end - 1; r = uint (p ! nat start) in
        if r < 0x80 then (r, 1)
        else
          let lim = (if end - 4 < 0 then 0 else end - 4);
              start = lastStart p lim (start - 1);
              start = (if start < 0 then 0 else start);
              d = DecodeRune (drop (nat start) p) in
          if start + int (snd d) \<noteq> end then (RuneError, 1) else d)"

text \<open>\<^verbatim>\<open>utf8.RuneCount\<close>: the number of runes, every erroneous byte counting as one.\<close>

function RuneCount :: "byte list \<Rightarrow> nat" where
  "RuneCount p = (if p = [] then 0 else Suc (RuneCount (drop (snd (DecodeRune p)) p)))"
  by pat_completeness auto
termination
proof (relation "measure length")
  show "wf (measure length)" by simp
next
  fix p :: "byte list"
  assume "p \<noteq> []"
  then have "0 < length p" by simp
  moreover have "0 < snd (DecodeRune p)" if "p \<noteq> []"
    using that by (auto simp: DecodeRune_def Let_def)
  ultimately show "(drop (snd (DecodeRune p)) p, p) \<in> measure length"
    using \<open>p \<noteq> []\<close> by simp
qed

text \<open>
  \<^verbatim>\<open>unicode.IsGraphic\<close>: letters, marks, numbers, punctuation, symbols and spaces.  Up
  to Latin-1 Go reads its table \<^verbatim>\<open>properties\<close>, in which the graphic code points are
  \<open>0x20 .. 0x7E\<close> and \<open>0xA0 .. 0xFF\<close> without the soft hyphen \<open>0xAD\<close>; above Latin-1
  it searches \<^verbatim>\<open>GraphicRanges\<close>, here the parameter \<open>tab\<close>.  Go compares \<^verbatim>\<open>uint32(r)\<close> with
  \<^verbatim>\<open>MaxLatin1\<close>, so a negative rune is looked up in the ranges.
\<close>

definition IsGraphic :: "(rune \<Rightarrow> bool) \<Rightarrow> rune \<Rightarrow> bool" where
  "IsGraphic tab r =
     (if 0 \<le> r \<and> r \<le> 0xFF then (0x20 \<le> r \<and> r \<le> 0x7E) \<or> (0xA0 \<le> r \<and> r \<noteq> 0xAD)
      else tab r)"

text \<open>\<^verbatim>\<open>strconv.Itoa\<close> on a number that is not negative: its decimal digits.\<close>

fun Itoa :: "nat \<Rightarrow> byte list" where
  "Itoa x = (if x < 10 then [of_nat (48 + x)] else Itoa (x div 10) @ [of_nat (48 + x mod 10)])"

section \<open>The line editor of get.go\<close>

text \<open>The result of a call: a panic, a read that never returns, or the two results.\<close>

datatype outcome = Panic | Blocked | Returned "byte list" "error option"

text \<open>
  What the read loop of \<^verbatim>\<open>GetBytes\<close> refers to besides \<open>result\<close>: the revision, the
  arguments \<open>echo\<close> and \<open>limit\<close>, the four control bytes read from the configuration,
  and the table behind \<^verbatim>\<open>unicode.IsGraphic\<close>.
\<close>

record cfg =
  rev :: revision
  echo :: EchoMode
  limit :: byte
  vEof :: byte
  vErase :: byte
  vKill :: byte
  vWerase :: byte
  graphic :: "rune \<Rightarrow> bool"

text \<open>
  \<^verbatim>\<open>cnt, err = os.Stdin.Read(buf)\<close> with \<open>buf\<close> four zero bytes: the buffer, the count
  and the error.  \<^verbatim>\<open>os.File.Read\<close> turns a read of no bytes into \<^verbatim>\<open>io.EOF\<close>.  One read
  delivers at most four bytes.
\<close>

definition Read :: "rd \<Rightarrow> byte list \<times> nat \<times> error option" where
  "Read ev =
     (case ev of
        RdErr e \<Rightarrow> ([0, 0, 0, 0], 0, Some e)
      | RdData d \<Rightarrow>
          if d = [] then ([0, 0, 0, 0], 0, Some EOF)
          else (take 4 (d @ [0, 0, 0, 0]), min 4 (length d), None))"

text \<open>The bytes \<^verbatim>\<open>ESC [ x D ESC [ K\<close>: cursor left by \<open>x\<close> columns, erase to end of line.\<close>

definition eraseSeq :: "nat \<Rightarrow> byte list" where
  "eraseSeq x = [0x1B, 0x5B] @ Itoa x @ [0x44, 0x1B, 0x5B, 0x4B]"

text \<open>
  \<^verbatim>\<open>erase(n, result, echo)\<close>.  The Linux-only revision writes the sequence whenever
  \<open>echo\<close> is set; the revision for all Unix systems only if the rune count \<open>x\<close> of the
  erased bytes is positive.  The result is the shortened slice and the screen; \<open>None\<close>
  is the panic of a slice expression out of range.
\<close>

definition erase :: "revision \<Rightarrow> int \<Rightarrow> byte list \<Rightarrow> bool \<Rightarrow> byte list \<Rightarrow> (byte list \<times> byte list) option" where
  "erase r n result ech scr =
     (if n < 0 \<or> int (length result) < n then None
      else
        let x = RuneCount (drop (length result - nat n) result);
            scr' = (if ech \<and> (r = LinuxOnly \<or> x > 0) then scr @ eraseSeq x else scr)
        in Some (take (length result - nat n) result, scr'))"

text \<open>
  The scan of the word-erase case, from \<open>pos\<close> downwards with the current \<open>flag\<close>; the
  value is \<open>pos\<close> when the loop is left (\<open>-1\<close> when it runs to the front).
\<close>

function werasePos :: "byte list \<Rightarrow> bool \<Rightarrow> int \<Rightarrow> int" where
  "werasePos result flag pos =
     (if pos \<ge> 0 then
        (if \<not> flag \<and> result ! nat pos \<noteq> space then werasePos result True (pos - 1)
         else if flag \<and> result ! nat pos = space then pos
         else werasePos result flag (pos - 1))
      else pos)"
  by pat_completeness auto
termination
  by (relation "measure (\<lambda>(result, flag, pos). nat (pos + 1))") auto

text \<open>One turn of the loop either goes on with a new \<open>result\<close> and screen, or leaves it.\<close>

datatype flow = Next "byte list" "byte list" | Done outcome "byte list"

definition eraseFlow :: "cfg \<Rightarrow> int \<Rightarrow> byte list \<Rightarrow> byte list \<Rightarrow> flow" where
  "eraseFlow c n result scr =
     (case erase (rev c) n result (echo c \<noteq> EchoNone) scr of
        None \<Rightarrow> Done Panic scr
      | Some (result', scr') \<Rightarrow> Next result' scr')"

text \<open>The body of the loop, the cases of the \<^verbatim>\<open>switch buf[0]\<close> in the order of the source.\<close>

definition step :: "cfg \<Rightarrow> rd \<Rightarrow> byte list \<Rightarrow> byte list \<Rightarrow> flow" where
  "step c ev result scr =
     (case Read ev of
        (buf, cnt, Some err) \<Rightarrow> Done (Returned result (Some err)) scr
      | (buf, cnt, None) \<Rightarrow>
          if buf ! 0 = vEof c then
            Done (Returned result (if length result = 0 then Some EOF else None)) scr
          else if buf ! 0 = linefeed then Done (Returned result None) scr
          else if buf ! 0 = vErase c then
            (if length result > 0 then eraseFlow c (int (snd (DecodeLastRune result))) result scr
             else Next result scr)
          else if buf ! 0 = vKill c then eraseFlow c (int (length result)) result scr
          else if buf ! 0 = vWerase c then
            (if length result = 0 then Next result scr
             else
               let pos = werasePos result False (int (length result) - 1)
               in eraseFlow c (int (length result) - (pos + 1)) result scr)
          else if IsGraphic (graphic c) (fst (DecodeRune buf)) then
            (let scr' = (if echo c = EchoNormal then scr @ take cnt buf
                         else if echo c = EchoMask then scr @ [maskChar]
                         else scr);
                 result' = result @ take cnt buf
             in if limit c > 0 \<and> RuneCount result' = unat (limit c)
                then Done (Returned result' None) scr'
                else Next result' scr')
          else Next result scr)"

text \<open>
  The loop over the answers of the successive reads.  When the answers run out the read
  blocks and the loop does not return.
\<close>

fun loop :: "cfg \<Rightarrow> rd list \<Rightarrow> byte list \<Rightarrow> byte list \<Rightarrow> outcome \<times> byte list" where
  "loop c [] result scr = (Blocked, scr)"
| "loop c (ev # evs) result scr =
     (case step c ev result scr of
        Next result' scr' \<Rightarrow> loop c evs result' scr'
      | Done out scr' \<Rightarrow> (out, scr'))"

text \<open>
  The configuration \<^verbatim>\<open>GetBytes\<close> derives: \<^verbatim>\<open>Cc[VMIN] = 1\<close>, \<^verbatim>\<open>Cc[VTIME] = 0\<close>,
  \<^verbatim>\<open>Lflag &^= ECHO | ICANON\<close>, and then \<^verbatim>\<open>Oflag |= ICRNL\<close> in the Linux-only revision,
  \<^verbatim>\<open>Iflag |= ICRNL\<close> in the revision for all Unix systems.
\<close>

definition deriveMode :: "revision \<Rightarrow> termios \<Rightarrow> termios" where
  "deriveMode r t =
     (let t1 = t\<lparr>Cc := (Cc t)[VMIN := 1]\<rparr>;
          t2 = t1\<lparr>Cc := (Cc t1)[VTIME := 0]\<rparr>;
          t3 = t2\<lparr>Lflag := Lflag t2 AND NOT (ECHO OR ICANON)\<rparr>
      in if r = LinuxOnly then t3\<lparr>Oflag := Oflag t3 OR ICRNL\<rparr>
         else t3\<lparr>Iflag := Iflag t3 OR ICRNL\<rparr>)"

text \<open>
  The values the loop works with: \<^verbatim>\<open>vEof := termios.Cc[unix.VEOF]\<close> and so on, read from
  the derived configuration.
\<close>

definition editorCfg :: "revision \<Rightarrow> EchoMode \<Rightarrow> byte \<Rightarrow> sys \<Rightarrow> termios \<Rightarrow> cfg" where
  "editorCfg r ech lim s termios =
     \<lparr>rev = r, echo = ech, limit = lim,
      vEof = Cc termios ! VEOF, vErase = Cc termios ! VERASE,
      vKill = Cc termios ! VKILL, vWerase = Cc termios ! VWERASE,
      graphic = graphicAbove s\<rparr>"

text \<open>
  \<^verbatim>\<open>GetBytes(echo, limit)\<close>.  The error of the ioctl that applies the derived configuration
  is dropped, as is the error of the deferred ioctl that writes \<open>old\<close> back.  The deferred
  call runs when the function returns or panics; it does not run while a read blocks.
\<close>

definition GetBytes :: "revision \<Rightarrow> EchoMode \<Rightarrow> byte \<Rightarrow> sys \<Rightarrow> world \<Rightarrow> outcome \<times> world" where
  "GetBytes r ech lim s w =
     (if \<not> checkIsTerminal s w then (Panic, w)
      else
        case IoctlGetTermios s w stdoutFd of
          Inl err \<Rightarrow> (Returned [] (Some err), w)
        | Inr got \<Rightarrow>
            let old = got;
                termios = deriveMode r got;
                w1 = snd (IoctlSetTermios (tcsetErr s) termios w);
                c = editorCfg r ech lim s termios;
                run = loop c (stdinReads s) [] (screen w1);
                w2 = w1\<lparr>screen := snd run\<rparr>
            in if fst run = Blocked then (Blocked, w2)
               else (fst run, snd (IoctlSetTermios (tcsetDeferredErr s) old w2)))"

section \<open>Observing a run\<close>

text \<open>
  The state of the loop after the reads \<open>evs\<close>, if it is still running then: the buffer
  \<open>result\<close> and the screen.
\<close>

fun feed :: "cfg \<Rightarrow> rd list \<Rightarrow> byte list \<Rightarrow> byte list \<Rightarrow> (byte list \<times> byte list) option" where
  "feed c [] result scr = Some (result, scr)"
| "feed c (ev # evs) result scr =
     (case step c ev result scr of
        Next result' scr' \<Rightarrow> feed c evs result' scr'
      | Done out scr' \<Rightarrow> None)"

text \<open>The buffer a turn of the loop leaves behind, whether it goes on or returns.\<close>

fun bufferOf :: "flow \<Rightarrow> byte list" where
  "bufferOf (Next result scr) = result"
| "bufferOf (Done (Returned result e) scr) = result"
| "bufferOf (Done Panic scr) = []"
| "bufferOf (Done Blocked scr) = []"

fun screenOf :: "flow \<Rightarrow> byte list" where
  "screenOf (Next result scr) = scr"
| "screenOf (Done out scr) = scr"

text \<open>
  \<^verbatim>\<open>utf8.Valid\<close>: \<open>p\<close> consists of complete encodings only.  The decoder reports an
  erroneous or cut-off encoding as \<open>(RuneError, 1)\<close>.
\<close>

function Valid :: "byte list \<Rightarrow> bool" where
  "Valid p =
     (if p = [] then True
      else if DecodeRune p = (RuneError, 1) then False
      else Valid (drop (snd (DecodeRune p)) p))"
  by pat_completeness auto
termination
proof (relation "measure length")
  show "wf (measure length)" by simp
next
  fix p :: "byte list"
  assume "p \<noteq> []"
  moreover have "0 < snd (DecodeRune p)" if "p \<noteq> []"
    using that by (auto simp: DecodeRune_def Let_def)
  ultimately show "(drop (snd (DecodeRune p)) p, p) \<in> measure length"
    by simp
qed

text \<open>\<open>u\<close> is the complete encoding of exactly one character.\<close>

definition oneRune :: "byte list \<Rightarrow> bool" where
  "oneRune u = (u \<noteq> [] \<and> snd (DecodeRune u) = length u \<and> DecodeRune u \<noteq> (RuneError, 1))"

text \<open>The first byte of \<open>u\<close> is one of the bytes the \<^verbatim>\<open>switch\<close> of the loop singles out.\<close>

definition controlByte :: "cfg \<Rightarrow> byte \<Rightarrow> bool" where
  "controlByte c b = (b = vEof c \<or> b = linefeed \<or> b = vErase c \<or> b = vKill c \<or> b = vWerase c)"

text \<open>What the three echo modes show for the accepted units \<open>us\<close>.\<close>

definition shown :: "EchoMode \<Rightarrow> byte list list \<Rightarrow> byte list" where
  "shown ech us =
     (case ech of
        EchoNormal \<Rightarrow> concat us
      | EchoNone \<Rightarrow> []
      | EchoMask \<Rightarrow> replicate (length us) maskChar)"

text \<open>The bytes of an ASCII string, and the reads that deliver them one at a time.\<close>

definition bytes :: "string \<Rightarrow> byte list" where
  "bytes str = map of_char str"

definition typed :: "string \<Rightarrow> rd list" where
  "typed str = map (\<lambda>b. RdData [b]) (bytes str)"

section \<open>Sample values\<close>

text \<open>
  The configuration of a Linux terminal in its usual cooked mode: \<^verbatim>\<open>^D\<close> for end of
  input, \<^verbatim>\<open>DEL\<close> for erase, \<^verbatim>\<open>^U\<close> for kill, \<^verbatim>\<open>^W\<close> for word erase.
\<close>

definition cooked :: termios where
  "cooked = \<lparr>Iflag = 0x4500, Oflag = 0x5, Cflag = 0xBF, Lflag = 0x8A3B, Line = 0,
     Cc = [0x03, 0x1C, 0x7F, 0x15, 0x04, 0x00, 0x01, 0x00, 0x11, 0x13, 0x1A, 0x00, 0x12,
           0x0F, 0x17, 0x16, 0x00, 0x00, 0x00],
     Ispeed = 0xF, Ospeed = 0xF\<rparr>"

definition world0 :: world where
  "world0 = \<lparr>tty = cooked, screen = []\<rparr>"

text \<open>A table for runs whose input is ASCII: no code point above Latin-1 is looked up.\<close>

definition noneAbove :: "rune \<Rightarrow> bool" where
  "noneAbove r = False"

definition noErr :: "nat \<Rightarrow> error option" where
  "noErr fd = None"

text \<open>A kernel on which every ioctl succeeds, answering the reads with \<open>rs\<close>.\<close>

definition sysOk :: "rd list \<Rightarrow> sys" where
  "sysOk rs = \<lparr>tcgetErr = noErr, tcsetErr = None, tcsetDeferredErr = None,
     stdinReads = rs, graphicAbove = noneAbove\<rparr>"

text \<open>The loop configuration \<^verbatim>\<open>GetBytes\<close> builds on \<open>cooked\<close>.\<close>

definition cfg0 :: "revision \<Rightarrow> EchoMode \<Rightarrow> byte \<Rightarrow> cfg" where
  "cfg0 r ech lim = \<lparr>rev = r, echo = ech, limit = lim, vEof = 0x04, vErase = 0x7F,
     vKill = 0x15, vWerase = 0x17, graphic = noneAbove\<rparr>"

section \<open>Properties\<close>

subsection \<open>Shared lemmas\<close>

text \<open>The recursive equations are unfolded by hand where a proof needs them.\<close>

declare lastStart.simps [simp del]

declare RuneCount.simps [simp del]

declare Itoa.simps [simp del]

declare werasePos.simps [simp del]

declare Valid.simps [simp del]

lemma RuneCount_Nil [simp]: "RuneCount [] = 0"
  by (simp add: RuneCount.simps)

lemma Valid_Nil [simp]: "Valid []"
  by (simp add: Valid.simps)

lemma RuneCount_eq_0: "(RuneCount p = 0) = (p = [])"
  by (subst RuneCount.simps) simp

lemma loop_feed:
  "feed c evs result scr = Some (result', scr') \<Longrightarrow>
   loop c (evs @ rest) result scr = loop c rest result' scr'"
  by (induction evs arbitrary: result scr) (auto split: flow.splits)

lemma feed_append:
  "feed c (xs @ ys) result scr =
     (case feed c xs result scr of None \<Rightarrow> None | Some (result', scr') \<Rightarrow> feed c ys result' scr')"
  by (induction xs arbitrary: result scr) (auto split: flow.splits)

lemma screen_IoctlSetTermios: "screen (snd (IoctlSetTermios f t w)) = screen w"
  by (simp add: IoctlSetTermios_def split: option.splits)

lemma GetBytes_run:
  assumes "checkIsTerminal s w" and "tcgetErr s stdoutFd = None"
  shows "fst (GetBytes r ech lim s w) =
           fst (loop (editorCfg r ech lim s (deriveMode r (tty w))) (stdinReads s) [] (screen w))"
    and "screen (snd (GetBytes r ech lim s w)) =
           snd (loop (editorCfg r ech lim s (deriveMode r (tty w))) (stdinReads s) [] (screen w))"
  using assms
  by (simp_all add: GetBytes_def IoctlGetTermios_def Let_def screen_IoctlSetTermios)

text \<open>When the get-configuration ioctl fails, its error is returned and nothing is read.\<close>

lemma GetBytes_get_fails:
  "checkIsTerminal s w \<Longrightarrow> tcgetErr s stdoutFd = Some e \<Longrightarrow>
   GetBytes r ech lim s w = (Returned [] (Some e), w)"
  by (simp add: GetBytes_def IoctlGetTermios_def)

lemma editorCfg_cooked:
  "editorCfg r ech lim (sysOk rs) (deriveMode r (tty world0)) = cfg0 r ech lim"
  by (cases r)
     (simp_all add: editorCfg_def cfg0_def sysOk_def deriveMode_def world0_def cooked_def
        VEOF_def VERASE_def VKILL_def VWERASE_def VMIN_def VTIME_def Let_def eval_nat_numeral)

subsection \<open>The decoder\<close>

lemma first_cases:
  "first b = 0xF0 \<or> first b = 0xF1 \<or> first b = 0x02 \<or> first b = 0x13 \<or> first b = 0x03 \<or>
   first b = 0x23 \<or> first b = 0x34 \<or> first b = 0x04 \<or> first b = 0x44"
  by (simp add: first_def)

lemma need_bounds:
  "\<not> first b \<ge> 0xF0 \<Longrightarrow> 2 \<le> unat (first b AND 7) \<and> unat (first b AND 7) \<le> 4"
  using first_cases [of b] by (elim disjE) simp_all

lemma accept_bounds:
  "\<not> first b \<ge> 0xF0 \<Longrightarrow>
   0x80 \<le> fst (acceptRanges (unat (drop_bit 4 (first b)))) \<and>
   snd (acceptRanges (unat (drop_bit 4 (first b)))) \<le> 0xBF"
  using first_cases [of b]
  by (elim disjE) (simp_all add: acceptRanges_def locb_def hicb_def)

lemma first_multi: "\<not> first b \<ge> 0xF0 \<Longrightarrow> 0xC2 \<le> b"
  by (simp add: first_def split: if_splits)

lemma first_ascii: "first b = 0xF0 \<Longrightarrow> b < 0x80"
  by (simp add: first_def split: if_splits)

lemma first_F0_F1: "first b \<ge> 0xF0 \<Longrightarrow> first b = 0xF0 \<or> first b = 0xF1"
  using first_cases [of b] by (elim disjE) simp_all

lemma DecodeRune_size_pos: "p \<noteq> [] \<Longrightarrow> 0 < snd (DecodeRune p)"
  by (auto simp: DecodeRune_def Let_def)

lemma DecodeRune_size_le4: "snd (DecodeRune p) \<le> 4"
  by (auto simp: DecodeRune_def Let_def)

lemma DecodeRune_size_le: "snd (DecodeRune p) \<le> length p"
proof (cases "p = []")
  case True
  then show ?thesis by (simp add: DecodeRune_def)
next
  case False
  then have n: "1 \<le> length p" by (cases p) simp_all
  show ?thesis
  proof (cases "first (p ! 0) \<ge> 0xF0")
    case True
    then show ?thesis using n False by (simp add: DecodeRune_def Let_def)
  next
    case F: False
    from need_bounds [OF F] show ?thesis using n False F
      by (simp add: DecodeRune_def Let_def)
  qed
qed

lemma DecodeRune_append:
  assumes "oneRune u"
  shows "DecodeRune (u @ t) = DecodeRune u"
proof -
  from assms have ne: "u \<noteq> []" and sz: "snd (DecodeRune u) = length u"
    and ok: "DecodeRune u \<noteq> (RuneError, 1)"
    by (simp_all add: oneRune_def)
  have h0: "(u @ t) ! 0 = u ! 0" using ne by (simp add: nth_append)
  show ?thesis
  proof (cases "first (u ! 0) \<ge> 0xF0")
    case True
    then show ?thesis using ne h0 by (simp add: DecodeRune_def Let_def)
  next
    case F: False
    from need_bounds [OF F] consider
      "unat (first (u ! 0) AND 7) = 2" | "unat (first (u ! 0) AND 7) = 3"
      | "unat (first (u ! 0) AND 7) = 4"
      by arith
    then show ?thesis
    proof cases
      case 1
      with sz ok F ne have "length u = 2"
        by (simp add: DecodeRune_def Let_def split: if_splits)
      then show ?thesis using 1 F h0 ne
        by (simp add: DecodeRune_def Let_def nth_append)
    next
      case 2
      with sz ok F ne have "length u = 3"
        by (simp add: DecodeRune_def Let_def split: if_splits)
      then show ?thesis using 2 F h0 ne
        by (simp add: DecodeRune_def Let_def nth_append)
    next
      case 3
      with sz ok F ne have "length u = 4"
        by (simp add: DecodeRune_def Let_def split: if_splits)
      then show ?thesis using 3 F h0 ne
        by (simp add: DecodeRune_def Let_def nth_append)
    qed
  qed
qed

lemma oneRune_length: "oneRune u \<Longrightarrow> 1 \<le> length u \<and> length u \<le> 4"
  using DecodeRune_size_le4 [of u] by (cases u) (auto simp: oneRune_def)

text \<open>The first encoding of a sequence that does not start with an error stands alone.\<close>

lemma DecodeRune_take:
  assumes "p \<noteq> []" and ok: "DecodeRune p \<noteq> (RuneError, 1)"
  shows "DecodeRune (take (snd (DecodeRune p)) p) = DecodeRune p"
proof -
  define u where "u = take (snd (DecodeRune p)) p"
  define t where "t = drop (snd (DecodeRune p)) p"
  have p: "p = u @ t" by (simp add: u_def t_def)
  have lu: "snd (DecodeRune (u @ t)) = length u"
    using DecodeRune_size_le [of p] by (simp add: u_def t_def)
  have ne: "u \<noteq> []" using DecodeRune_size_pos [OF assms(1)] lu p by auto
  note ok' = ok [unfolded p]
  have h0: "(u @ t) ! 0 = u ! 0" using ne by (simp add: nth_append)
  have "DecodeRune u = DecodeRune (u @ t)"
  proof (cases "first (u ! 0) \<ge> 0xF0")
    case True
    then show ?thesis using ne h0 by (simp add: DecodeRune_def Let_def)
  next
    case F: False
    from need_bounds [OF F] consider
      "unat (first (u ! 0) AND 7) = 2" | "unat (first (u ! 0) AND 7) = 3"
      | "unat (first (u ! 0) AND 7) = 4"
      by arith
    then show ?thesis
    proof cases
      case 1
      with ok' F ne h0 lu have "length u = 2"
        by (simp add: DecodeRune_def Let_def split: if_splits)
      then show ?thesis using 1 F h0 ne
        by (simp add: DecodeRune_def Let_def nth_append)
    next
      case 2
      with ok' F ne h0 lu have "length u = 3"
        by (simp add: DecodeRune_def Let_def split: if_splits)
      then show ?thesis using 2 F h0 ne
        by (simp add: DecodeRune_def Let_def nth_append)
    next
      case 3
      with ok' F ne h0 lu have "length u = 4"
        by (simp add: DecodeRune_def Let_def split: if_splits)
      then show ?thesis using 3 F h0 ne
        by (simp add: DecodeRune_def Let_def nth_append)
    qed
  qed
  then have "DecodeRune u = DecodeRune p" using p by simp
  then show ?thesis by (simp only: u_def)
qed

lemma oneRune_take:
  assumes "p \<noteq> []" and "DecodeRune p \<noteq> (RuneError, 1)"
  shows "oneRune (take (snd (DecodeRune p)) p)"
  using assms DecodeRune_take [OF assms] DecodeRune_size_pos [OF assms(1)] DecodeRune_size_le [of p]
  by (auto simp: oneRune_def)

text \<open>What a decoding without error says about the bytes.\<close>

lemma DecodeRune_ascii:
  assumes "p \<noteq> []" and "DecodeRune p \<noteq> (RuneError, 1)" and "first (p ! 0) \<ge> 0xF0"
  shows "snd (DecodeRune p) = 1 \<and> p ! 0 < 0x80"
proof -
  from first_F0_F1 [OF assms(3)] assms(1,2) have "first (p ! 0) = 0xF0"
    by (auto simp: DecodeRune_def Let_def)
  then show ?thesis using assms(1) first_ascii [of "p ! 0"]
    by (simp add: DecodeRune_def Let_def)
qed

lemma DecodeRune_multi:
  assumes ne: "p \<noteq> []" and ok: "DecodeRune p \<noteq> (RuneError, 1)" and F: "\<not> first (p ! 0) \<ge> 0xF0"
  shows "2 \<le> snd (DecodeRune p) \<and> snd (DecodeRune p) \<le> length p \<and> 0xC2 \<le> p ! 0
    \<and> (\<forall>i. 1 \<le> i \<and> i < snd (DecodeRune p) \<longrightarrow> 0x80 \<le> p ! i \<and> p ! i \<le> 0xBF)"
proof -
  note ab = accept_bounds [OF F]
  have lo: "0x80 \<le> b" if "fst (acceptRanges (unat (drop_bit 4 (first (p ! 0))))) \<le> b" for b
    using ab that by (meson order_trans)
  have hi: "b \<le> 0xBF" if "b \<le> snd (acceptRanges (unat (drop_bit 4 (first (p ! 0)))))" for b
    using ab that by (meson order_trans)
  from need_bounds [OF F] consider
    "unat (first (p ! 0) AND 7) = 2" | "unat (first (p ! 0) AND 7) = 3"
    | "unat (first (p ! 0) AND 7) = 4"
    by arith
  then show ?thesis
  proof cases
    case 1
    with ok F ne have s: "snd (DecodeRune p) = 2" and n: "2 \<le> length p"
      and b1: "fst (acceptRanges (unat (drop_bit 4 (first (p ! 0))))) \<le> p ! 1"
              "p ! 1 \<le> snd (acceptRanges (unat (drop_bit 4 (first (p ! 0)))))"
      by (simp_all add: DecodeRune_def Let_def not_less split: if_splits)
    have "\<forall>i. 1 \<le> i \<and> i < 2 \<longrightarrow> 0x80 \<le> p ! i \<and> p ! i \<le> 0xBF"
    proof (intro allI impI)
      fix i :: nat
      assume "1 \<le> i \<and> i < 2"
      then have "i = 1" by arith
      then show "0x80 \<le> p ! i \<and> p ! i \<le> 0xBF"
        using lo [OF b1(1)] hi [OF b1(2)]  by auto
    qed
    then show ?thesis using s n first_multi [OF F] lo [OF b1(1)] hi [OF b1(2)] by auto
  next
    case 2
    with ok F ne have s: "snd (DecodeRune p) = 3" and n: "3 \<le> length p"
      and b1: "fst (acceptRanges (unat (drop_bit 4 (first (p ! 0))))) \<le> p ! 1"
              "p ! 1 \<le> snd (acceptRanges (unat (drop_bit 4 (first (p ! 0)))))"
      and b2: "0x80 \<le> p ! 2" "p ! 2 \<le> 0xBF"
      by (simp_all add: DecodeRune_def Let_def not_less locb_def hicb_def split: if_splits)
    have "\<forall>i. 1 \<le> i \<and> i < 3 \<longrightarrow> 0x80 \<le> p ! i \<and> p ! i \<le> 0xBF"
    proof (intro allI impI)
      fix i :: nat
      assume "1 \<le> i \<and> i < 3"
      then have "i = 1 \<or> i = 2" by arith
      then show "0x80 \<le> p ! i \<and> p ! i \<le> 0xBF"
        using lo [OF b1(1)] hi [OF b1(2)] b2 by auto
    qed
    then show ?thesis using s n first_multi [OF F] lo [OF b1(1)] hi [OF b1(2)] b2 by auto
  next
    case 3
    with ok F ne have s: "snd (DecodeRune p) = 4" and n: "4 \<le> length p"
      and b1: "fst (acceptRanges (unat (drop_bit 4 (first (p ! 0))))) \<le> p ! 1"
              "p ! 1 \<le> snd (acceptRanges (unat (drop_bit 4 (first (p ! 0)))))"
      and b2: "0x80 \<le> p ! 2" "p ! 2 \<le> 0xBF"
      and b3: "0x80 \<le> p ! 3" "p ! 3 \<le> 0xBF"
      by (simp_all add: DecodeRune_def Let_def not_less locb_def hicb_def split: if_splits)
    have "\<forall>i. 1 \<le> i \<and> i < 4 \<longrightarrow> 0x80 \<le> p ! i \<and> p ! i \<le> 0xBF"
    proof (intro allI impI)
      fix i :: nat
      assume "1 \<le> i \<and> i < 4"
      then have "i = 1 \<or> i = 2 \<or> i = 3" by arith
      then show "0x80 \<le> p ! i \<and> p ! i \<le> 0xBF"
        using lo [OF b1(1)] hi [OF b1(2)] b2 b3 by auto
    qed
    then show ?thesis using s n first_multi [OF F] lo [OF b1(1)] hi [OF b1(2)] b2 b3 by auto
  qed
qed

text \<open>Every byte of an encoding of more than one byte is at least \<open>0x80\<close>.\<close>

lemma oneRune_ascii:
  assumes "oneRune u" and "j < length u" and "u ! j < 0x80"
  shows "length u = 1"
proof (cases "first (u ! 0) \<ge> 0xF0")
  case True
  then show ?thesis using assms(1) DecodeRune_ascii [of u] by (simp add: oneRune_def)
next
  case False
  from assms(1) have ne: "u \<noteq> []" and sz: "snd (DecodeRune u) = length u"
    and ok: "DecodeRune u \<noteq> (RuneError, 1)"
    by (simp_all add: oneRune_def)
  note m = DecodeRune_multi [OF ne ok False, unfolded sz]
  have "0x80 \<le> u ! j"
  proof (cases "j = 0")
    case True
    have "(0x80 :: byte) \<le> 0xC2" by simp
    then show ?thesis using m True by (meson order_trans)
  next
    case False
    then show ?thesis using m assms(2) by simp
  qed
  then show ?thesis using assms(3) by simp
qed

lemma RuneCount_oneRune: "oneRune u \<Longrightarrow> RuneCount (u @ t) = Suc (RuneCount t)"
  by (subst RuneCount.simps) (simp add: DecodeRune_append oneRune_def)

lemma RuneCount_concat:
  "\<forall>u\<in>set us. oneRune u \<Longrightarrow> RuneCount (concat us @ t) = length us + RuneCount t"
  by (induction us) (simp_all add: RuneCount_oneRune)

lemma concat_oneRune_Nil: "\<forall>u\<in>set us. oneRune u \<Longrightarrow> (concat us = []) = (us = [])"
  by (cases us) (auto simp: oneRune_def)

lemma Valid_oneRune_append: "oneRune u \<Longrightarrow> Valid (u @ t) = Valid t"
  by (subst Valid.simps) (simp add: DecodeRune_append oneRune_def)

lemma Valid_split:
  assumes "Valid p" and "p \<noteq> []"
  shows "oneRune (take (snd (DecodeRune p)) p) \<and> Valid (drop (snd (DecodeRune p)) p)"
proof -
  from assms have ok: "DecodeRune p \<noteq> (RuneError, 1)"
    by (subst (asm) Valid.simps) (simp split: if_splits)
  moreover from assms ok have "Valid (drop (snd (DecodeRune p)) p)"
    by (subst (asm) Valid.simps) (simp split: if_splits)
  ultimately show ?thesis using oneRune_take [OF assms(2)] by simp
qed

lemma Valid_append: "Valid xs \<Longrightarrow> Valid ys \<Longrightarrow> Valid (xs @ ys)"
proof (induction xs rule: Valid.induct)
  case (1 p)
  show ?case
  proof (cases "p = []")
    case True
    then show ?thesis using "1.prems" by simp
  next
    case False
    from Valid_split [OF "1.prems"(1) False]
    have u: "oneRune (take (snd (DecodeRune p)) p)" and t: "Valid (drop (snd (DecodeRune p)) p)"
      by simp_all
    from "1.prems"(1) False have ok: "DecodeRune p \<noteq> (RuneError, 1)"
      by (subst (asm) Valid.simps) (simp split: if_splits)
    have "Valid (drop (snd (DecodeRune p)) p @ ys)"
      using "1.IH" [OF False ok t "1.prems"(2)] .
    then have "Valid (take (snd (DecodeRune p)) p @ (drop (snd (DecodeRune p)) p @ ys))"
      using Valid_oneRune_append [OF u] by simp
    then show ?thesis by (simp flip: append_assoc)
  qed
qed

text \<open>A valid sequence cut behind an ASCII byte is valid.\<close>

lemma Valid_take_ascii:
  "Valid p \<Longrightarrow> i < length p \<Longrightarrow> p ! i < 0x80 \<Longrightarrow> Valid (take (Suc i) p)"
proof (induction p arbitrary: i rule: Valid.induct)
  case (1 p)
  from "1.prems"(2) have ne: "p \<noteq> []" by auto
  define k where "k = snd (DecodeRune p)"
  from "1.prems"(1) ne have ok: "DecodeRune p \<noteq> (RuneError, 1)"
    by (subst (asm) Valid.simps) (simp split: if_splits)
  from Valid_split [OF "1.prems"(1) ne]
  have u: "oneRune (take k p)" and t: "Valid (drop k p)" by (simp_all add: k_def)
  have kl: "k \<le> length p" using DecodeRune_size_le [of p] by (simp add: k_def)
  have lu: "length (take k p) = k" using kl by simp
  show ?case
  proof (cases "i < k")
    case True
    then have "take k p ! i < 0x80" using "1.prems"(3) by simp
    from oneRune_ascii [OF u _ this] True lu have k1: "k = 1" by simp
    with True have "i = 0" by simp
    then have "take (Suc i) p = take k p @ []" using k1 by simp
    then show ?thesis using Valid_oneRune_append [OF u, of "[]"] by simp
  next
    case False
    then have ik: "k \<le> i" by simp
    have d: "drop k p ! (i - k) = p ! i" using ik kl by simp
    have "Valid (take (Suc (i - k)) (drop k p))"
      using "1.IH" [OF ne ok t [unfolded k_def], of "i - k"] "1.prems"(2,3) ik d
      by (simp add: k_def)
    moreover have "take (Suc i) p = take k p @ take (Suc (i - k)) (drop k p)"
      using ik by (metis Suc_diff_le append_take_drop_id le_SucI take_add le_add_diff_inverse)
    ultimately show ?thesis using Valid_oneRune_append [OF u] by simp
  qed
qed

text \<open>A valid sequence that is not empty ends in a complete encoding.\<close>

lemma Valid_last_unit:
  "Valid p \<Longrightarrow> p \<noteq> [] \<Longrightarrow> \<exists>xs u. p = xs @ u \<and> Valid xs \<and> oneRune u"
proof (induction p rule: Valid.induct)
  case (1 p)
  define k where "k = snd (DecodeRune p)"
  from "1.prems" have ok: "DecodeRune p \<noteq> (RuneError, 1)"
    by (subst (asm) Valid.simps) (simp split: if_splits)
  from Valid_split [OF "1.prems"]
  have u: "oneRune (take k p)" and t: "Valid (drop k p)" by (simp_all add: k_def)
  show ?case
  proof (cases "drop k p = []")
    case True
    then have "p = [] @ take k p" by simp
    then show ?thesis using u by (metis Valid_Nil)
  next
    case False
    from "1.IH" [OF "1.prems"(2) ok t [unfolded k_def] False [unfolded k_def]]
    obtain xs v where d: "drop k p = xs @ v" and xs: "Valid xs" and v: "oneRune v"
      by (auto simp: k_def)
    have "p = (take k p @ xs) @ v" using d by (metis append_assoc append_take_drop_id)
    moreover have "Valid (take k p @ xs)" using Valid_oneRune_append [OF u] xs by simp
    ultimately show ?thesis using v by blast
  qed
qed

lemma RuneStart_table:
  "list_all (\<lambda>n. RuneStart (word_of_int n) = (n < 0x80 \<or> 0xBF < n)) [0..255]"
  by code_simp

lemma RuneStart_range: "RuneStart b = (b < 0x80 \<or> 0xBF < b)"
proof -
  have "uint b \<in> set [0..255]"
    using uint_bounded [of b] by simp
  with RuneStart_table have "RuneStart (word_of_int (uint b)) = (uint b < 0x80 \<or> 0xBF < uint b)"
    unfolding list_all_iff by blast
  then show ?thesis by (simp add: word_less_def)
qed

lemma lastStart_found:
  "lim \<le> s \<Longrightarrow> s \<le> start \<Longrightarrow> RuneStart (p ! nat s) \<Longrightarrow>
   \<forall>j. s < j \<and> j \<le> start \<longrightarrow> \<not> RuneStart (p ! nat j) \<Longrightarrow>
   lastStart p lim start = s"
proof (induction p lim start rule: lastStart.induct)
  case (1 p lim start)
  show ?case
  proof (cases "start = s")
    case True
    then show ?thesis using "1.prems" by (subst lastStart.simps) simp
  next
    case False
    with "1.prems" have lt: "s < start" and ge: "lim \<le> start" by simp_all
    then have nr: "\<not> RuneStart (p ! nat start)" using "1.prems"(4) by simp
    have "lastStart p lim (start - 1) = s"
      using "1.IH" [OF ge nr] "1.prems" lt by simp
    then show ?thesis using ge nr by (subst lastStart.simps) simp
  qed
qed

lemma DecodeLastRune_ascii:
  "p \<noteq> [] \<Longrightarrow> uint (p ! nat (int (length p) - 1)) < 0x80 \<Longrightarrow> snd (DecodeLastRune p) = 1"
  by (simp add: DecodeLastRune_def Let_def)

lemma DecodeLastRune_multi:
  assumes "p \<noteq> []" and "\<not> uint (p ! nat (int (length p) - 1)) < 0x80"
    and "lastStart p (if int (length p) - 4 < 0 then 0 else int (length p) - 4)
           (int (length p) - 1 - 1) = s"
    and "0 \<le> s" and "s + int (snd (DecodeRune (drop (nat s) p))) = int (length p)"
  shows "DecodeLastRune p = DecodeRune (drop (nat s) p)"
  using assms by (simp add: DecodeLastRune_def Let_def)

text \<open>\<^verbatim>\<open>DecodeLastRune\<close> finds the complete encoding a sequence ends in.\<close>

lemma DecodeLastRune_unit:
  assumes u: "oneRune u"
  shows "snd (DecodeLastRune (xs @ u)) = length u"
proof -
  from u have ne: "u \<noteq> []" and sz: "snd (DecodeRune u) = length u"
    and ok: "DecodeRune u \<noteq> (RuneError, 1)"
    by (simp_all add: oneRune_def)
  define k where "k = length u"
  define n where "n = length xs"
  define p where "p = xs @ u"
  have pne: "p \<noteq> []" using ne by (simp add: p_def)
  have k1: "1 \<le> k" using ne by (cases u) (simp_all add: k_def)
  have len: "int (length p) = int n + int k" by (simp add: k_def n_def p_def)
  have nth: "p ! nat (int n + int i) = u ! i" for i
    by (simp add: n_def p_def nat_add_distrib nth_append)
  have "int n + int k - 1 = int n + int (k - 1)" using k1 by (simp add: of_nat_diff)
  then have lastb: "p ! nat (int (length p) - 1) = u ! (k - 1)"
    using nth [of "k - 1"] by (simp only: len)
  have "snd (DecodeLastRune p) = k"
  proof (cases "first (u ! 0) \<ge> 0xF0")
    case True
    from DecodeRune_ascii [OF ne ok True] sz have k: "k = 1" and a: "u ! 0 < 0x80"
      by (simp_all add: k_def)
    from a have "uint (u ! 0) < 0x80" by (simp add: word_less_def)
    then have "uint (p ! nat (int (length p) - 1)) < 0x80" using lastb k by simp
    from DecodeLastRune_ascii [OF pne this] k show ?thesis by simp
  next
    case False
    note m = DecodeRune_multi [OF ne ok False, unfolded sz, folded k_def]
    then have k2: "2 \<le> k" and k4: "k \<le> 4" using DecodeRune_size_le4 [of u] sz
      by (simp_all add: k_def)
    have "0x80 \<le> u ! (k - 1)" using m k2 by simp
    then have "\<not> uint (u ! (k - 1)) < 0x80" by (simp add: word_le_def)
    then have big: "\<not> uint (p ! nat (int (length p) - 1)) < 0x80" using lastb by simp
    have l1: "(if int (length p) - 4 < 0 then 0 else int (length p) - 4) \<le> int n"
      using k4 by (simp add: len)
    have l2: "int n \<le> int (length p) - 1 - 1" using k2 by (simp add: len)
    have "(0xBF :: byte) < 0xC2" by simp
    then have "0xBF < u ! 0" using m by (meson less_le_trans)
    then have l3: "RuneStart (p ! nat (int n))"
      using nth [of 0] by (simp add: RuneStart_range)
    have l4: "\<forall>j. int n < j \<and> j \<le> int (length p) - 1 - 1 \<longrightarrow> \<not> RuneStart (p ! nat j)"
    proof (intro allI impI)
      fix j
      assume j: "int n < j \<and> j \<le> int (length p) - 1 - 1"
      define i where "i = nat (j - int n)"
      have ji: "j = int n + int i" using j by (simp add: i_def)
      have "1 \<le> i \<and> i < k" using j by (simp add: i_def len) arith
      then have "0x80 \<le> u ! i \<and> u ! i \<le> 0xBF" using m by simp
      then show "\<not> RuneStart (p ! nat j)"
        unfolding ji nth by (simp add: RuneStart_range not_less)
    qed
    have ls: "lastStart p (if int (length p) - 4 < 0 then 0 else int (length p) - 4)
        (int (length p) - 1 - 1) = int n"
      by (rule lastStart_found [OF l1 l2 l3 l4])
    have dr: "drop (nat (int n)) p = u" by (simp add: n_def p_def)
    have e: "int n + int (snd (DecodeRune (drop (nat (int n)) p))) = int (length p)"
      unfolding dr sz len by (simp add: k_def)
    from DecodeLastRune_multi [OF pne big ls _ e] show ?thesis
      unfolding dr using sz by (simp add: k_def)
  qed
  then show ?thesis by (simp add: p_def k_def)
qed

subsection \<open>One turn of the loop\<close>

lemma Read_data: "d \<noteq> [] \<Longrightarrow> Read (RdData d) = (take 4 (d @ [0, 0, 0, 0]), min 4 (length d), None)"
  by (simp add: Read_def)

lemma Read_hd: "d \<noteq> [] \<Longrightarrow> (d @ z) ! 0 = d ! 0"
  by (cases d) simp_all

lemma take_Read: "take (min 4 (length d)) (d @ z) = take 4 d"
  by (cases "length d \<le> 4") (simp_all add: min_def)

lemma step_read_error:
  "Read ev = (buf, cnt, Some e) \<Longrightarrow> step c ev result scr = Done (Returned result (Some e)) scr"
  by (simp add: step_def)

lemma step_eof:
  "Read ev = (buf, cnt, None) \<Longrightarrow> buf ! 0 = vEof c \<Longrightarrow>
   step c ev result scr = Done (Returned result (if result = [] then Some EOF else None)) scr"
  by (simp add: step_def)

lemma step_linefeed:
  "step c (RdData (linefeed # t)) result scr =
     Done (Returned result (if vEof c = linefeed \<and> result = [] then Some EOF else None)) scr"
  by (simp add: step_def Read_data Let_def)

lemma shown_append: "shown ech (us @ vs) = shown ech us @ shown ech vs"
  by (cases ech) (simp_all add: shown_def replicate_add)

lemma step_accept:
  assumes "d \<noteq> []" and "\<not> controlByte c (d ! 0)"
    and "IsGraphic (graphic c) (fst (DecodeRune (take 4 (d @ [0, 0, 0, 0]))))"
  shows "step c (RdData d) result scr =
     (if 0 < limit c \<and> RuneCount (result @ take 4 d) = unat (limit c)
      then Done (Returned (result @ take 4 d) None) (scr @ shown (echo c) [take 4 d])
      else Next (result @ take 4 d) (scr @ shown (echo c) [take 4 d]))"
  using assms
  by (cases "echo c")
     (simp_all add: step_def Read_data Read_hd take_Read controlByte_def shown_def maskChar_def
        Let_def del: take_append)

lemma step_discard:
  assumes "d \<noteq> []" and "\<not> controlByte c (d ! 0)"
    and "\<not> IsGraphic (graphic c) (fst (DecodeRune (take 4 (d @ [0, 0, 0, 0]))))"
  shows "step c (RdData d) result scr = Next result scr"
  using assms
  by (simp add: step_def Read_data Read_hd controlByte_def Let_def del: take_append)

lemma oneRune_buf:
  assumes "oneRune u"
  shows "take 4 u = u" and "DecodeRune (take 4 (u @ z)) = DecodeRune u"
proof -
  from oneRune_length [OF assms] show "take 4 u = u" by simp
  then have "take 4 (u @ z) = u @ take (4 - length u) z" by simp
  then show "DecodeRune (take 4 (u @ z)) = DecodeRune u"
    using DecodeRune_append [OF assms] by simp
qed

lemma feed_units:
  assumes "\<forall>u\<in>set us. oneRune u \<and> \<not> controlByte c (u ! 0) \<and> IsGraphic (graphic c) (fst (DecodeRune u))"
    and "limit c = 0 \<or> length us < unat (limit c)"
  shows "feed c (map RdData us) [] scr = Some (concat us, scr @ shown (echo c) us)"
  using assms
proof (induction us rule: rev_induct)
  case Nil
  show ?case by (cases "echo c") (simp_all add: shown_def)
next
  case (snoc u us)
  from snoc.prems have u: "oneRune u" "\<not> controlByte c (u ! 0)"
      "IsGraphic (graphic c) (fst (DecodeRune u))"
    and rest: "\<forall>v\<in>set us. oneRune v \<and> \<not> controlByte c (v ! 0) \<and> IsGraphic (graphic c) (fst (DecodeRune v))"
    and lim: "limit c = 0 \<or> Suc (length us) < unat (limit c)"
    by simp_all
  from rest lim have IH: "feed c (map RdData us) [] scr = Some (concat us, scr @ shown (echo c) us)"
    by (intro snoc.IH) auto
  have ne: "u \<noteq> []" using u(1) by (simp add: oneRune_def)
  have cnt: "RuneCount (concat us @ u) = Suc (length us)"
    using RuneCount_concat [of "us @ [u]" "[]"] rest u(1) by simp
  have nolim: "\<not> (0 < limit c \<and> RuneCount (concat us @ take 4 u) = unat (limit c))"
    using lim cnt oneRune_buf(1) [OF u(1)] by auto
  have "step c (RdData u) (concat us) (scr @ shown (echo c) us)
      = Next (concat us @ u) (scr @ shown (echo c) us @ shown (echo c) [u])"
    using step_accept [of u c "concat us" "scr @ shown (echo c) us"] ne u nolim
      oneRune_buf [OF u(1)]
    by simp
  then show ?case using IH by (simp add: feed_append shown_append)
qed

lemma werasePos_result:
  "- 1 \<le> pos \<Longrightarrow>
   werasePos result flag pos = - 1 \<or>
   (0 \<le> werasePos result flag pos \<and> werasePos result flag pos \<le> pos \<and>
    result ! nat (werasePos result flag pos) = space)"
proof (induction result flag pos rule: werasePos.induct)
  case (1 result flag pos)
  show ?case
  proof (cases "pos \<ge> 0")
    case False
    then show ?thesis using "1.prems" by (subst werasePos.simps) simp
  next
    case True
    then have p1: "- 1 \<le> pos - 1" by simp
    show ?thesis
    proof (cases "\<not> flag \<and> result ! nat pos \<noteq> space")
      case a: True
      from "1.IH"(1) [OF True a p1] show ?thesis
        using True a by (subst (1 2 3 4) werasePos.simps) auto
    next
      case b: False
      show ?thesis
      proof (cases "flag \<and> result ! nat pos = space")
        case c: True
        then show ?thesis using True b by (subst (1 2 3 4) werasePos.simps) simp
      next
        case d: False
        from "1.IH"(2) [OF True b d p1] show ?thesis
          using True b d by (subst (1 2 3 4) werasePos.simps) auto
      qed
    qed
  qed
qed

lemma bufferOf_eraseFlow:
  "bufferOf (eraseFlow c n result scr) =
     (if n < 0 \<or> int (length result) < n then [] else take (length result - nat n) result)"
  by (simp add: eraseFlow_def erase_def Let_def)

text \<open>
  In the revision for all Unix systems an erase of zero columns writes nothing and
  leaves the buffer as it is.
\<close>

lemma erase_AllUnix_zero_width:
  "erase AllUnix n result ech scr = Some (result', scr') \<Longrightarrow>
   RuneCount (drop (length result - nat n) result) = 0 \<Longrightarrow> scr' = scr \<and> result' = result"
  by (auto simp: erase_def Let_def RuneCount_eq_0 split: if_splits)

lemma Valid_erase_last:
  assumes "Valid result" and "result \<noteq> []"
  shows "Valid (bufferOf (eraseFlow c (int (snd (DecodeLastRune result))) result scr))"
proof -
  from Valid_last_unit [OF assms] obtain xs u
    where r: "result = xs @ u" and xs: "Valid xs" and u: "oneRune u"
    by blast
  have "snd (DecodeLastRune result) = length u"
    unfolding r by (rule DecodeLastRune_unit [OF u])
  then show ?thesis using xs by (simp add: bufferOf_eraseFlow r)
qed

lemma Valid_kill: "Valid (bufferOf (eraseFlow c (int (length result)) result scr))"
  by (simp add: bufferOf_eraseFlow)

lemma Valid_werase:
  assumes "Valid result" and "result \<noteq> []"
  shows "Valid (bufferOf (eraseFlow c
           (int (length result) - (werasePos result False (int (length result) - 1) + 1)) result scr))"
proof -
  define q where "q = werasePos result False (int (length result) - 1)"
  have "- 1 \<le> int (length result) - 1" by simp
  from werasePos_result [OF this, of result False]
  consider "q = - 1" | "0 \<le> q" "q \<le> int (length result) - 1" "result ! nat q = space"
    unfolding q_def by blast
  then have "Valid (bufferOf (eraseFlow c (int (length result) - (q + 1)) result scr))"
  proof cases
    case 1
    then show ?thesis by (simp add: bufferOf_eraseFlow)
  next
    case 2
    then have i: "nat q < length result" and a: "result ! nat q < 0x80"
      using assms(2) by (simp_all add: space_def)
    from 2 have "length result - nat (int (length result) - (q + 1)) = Suc (nat q)"
      by (simp add: nat_diff_distrib nat_add_distrib)
    then show ?thesis
      using Valid_take_ascii [OF assms(1) i a] 2 by (simp add: bufferOf_eraseFlow)
  qed
  then show ?thesis by (simp add: q_def)
qed

text \<open>One turn of the loop keeps the buffer valid if the read delivers whole characters.\<close>

lemma step_Valid:
  assumes "Valid result" and "\<forall>d. ev = RdData d \<longrightarrow> Valid (take 4 d)"
  shows "Valid (bufferOf (step c ev result scr))"
proof (cases ev)
  case (RdErr e)
  then show ?thesis using assms(1) by (simp add: step_def Read_def)
next
  case (RdData d)
  show ?thesis
  proof (cases "d = []")
    case True
    then show ?thesis using assms(1) RdData by (simp add: step_def Read_def)
  next
    case False
    have v0: "Valid (take 4 d)" using assms(2) RdData by simp
    have v: "Valid (result @ take 4 d)"
      using assms(1) v0 by (simp add: Valid_append)
    show ?thesis
      unfolding RdData step_def Read_data [OF False]
      using assms(1) v0 v Valid_erase_last [OF assms(1), of c scr] Valid_werase [OF assms(1), of c scr]
        Valid_kill [of c result scr]
      by (simp add: Let_def take_Read del: take_append)
  qed
qed

lemma step_Next_bufferOf: "step c ev result scr = Next r s \<Longrightarrow> bufferOf (step c ev result scr) = r"
  by simp

lemma feed_Valid:
  "\<forall>d. RdData d \<in> set evs \<longrightarrow> Valid (take 4 d) \<Longrightarrow> Valid result \<Longrightarrow>
   feed c evs result scr = Some (r, s) \<Longrightarrow> Valid r"
proof (induction evs arbitrary: result scr)
  case Nil
  then show ?case by simp
next
  case (Cons ev evs)
  from Cons.prems(3) obtain r1 s1 where st: "step c ev result scr = Next r1 s1"
    and f: "feed c evs r1 s1 = Some (r, s)"
    by (auto split: flow.splits)
  have "Valid (bufferOf (step c ev result scr))"
    using step_Valid [OF Cons.prems(2), of ev c scr] Cons.prems(1) by simp
  then have "Valid r1" by (simp add: st)
  then show ?case using Cons.IH [OF _ _ f] Cons.prems(1) by simp
qed

lemma loop_Valid:
  "\<forall>d. RdData d \<in> set evs \<longrightarrow> Valid (take 4 d) \<Longrightarrow> Valid result \<Longrightarrow>
   loop c evs result scr = (Returned r e, s) \<Longrightarrow> Valid r"
proof (induction evs arbitrary: result scr)
  case Nil
  then show ?case by simp
next
  case (Cons ev evs)
  have v: "Valid (bufferOf (step c ev result scr))"
    using step_Valid [OF Cons.prems(2), of ev c scr] Cons.prems(1) by simp
  show ?case
  proof (cases "step c ev result scr")
    case (Next r1 s1)
    then have "Valid r1" using v by simp
    moreover have "loop c evs r1 s1 = (Returned r e, s)" using Cons.prems(3) Next by simp
    ultimately show ?thesis using Cons.IH Cons.prems(1) by simp
  next
    case (Done out s1)
    then show ?thesis using Cons.prems(3) v by auto
  qed
qed

subsection \<open>The claims\<close>

text \<open>
  C1, as amended.  Whenever \<^verbatim>\<open>GetBytes\<close> returns (normally, with \<^verbatim>\<open>io.EOF\<close> or with the
  error of a failed read) or panics, and the deferred set-configuration ioctl succeeds,
  the configuration of the terminal afterwards equals the one before the call.  The
  error of the deferred ioctl is dropped, so the statement needs that ioctl to succeed.
\<close>

theorem GetBytes_restores_if_deferred_set_succeeds:
  "GetBytes r ech lim s w = (out, w') \<Longrightarrow> out \<noteq> Blocked \<Longrightarrow> tcsetDeferredErr s = None \<Longrightarrow>
   tty w' = tty w"
  by (auto simp: GetBytes_def IoctlGetTermios_def IoctlSetTermios_def Let_def
      split: if_splits sum.splits option.splits)

text \<open>The three ways of returning, each on a concrete run.\<close>

theorem GetBytes_restores_if_deferred_set_succeeds_witness:
  "fst (GetBytes AllUnix EchoNormal 0 (sysOk (typed ''ab'' @ [RdData [0x0A]])) world0) = Returned (bytes ''ab'') None
   \<and> tcsetDeferredErr (sysOk (typed ''ab'' @ [RdData [0x0A]])) = None
   \<and> tty (snd (GetBytes AllUnix EchoNormal 0 (sysOk (typed ''ab'' @ [RdData [0x0A]])) world0)) = tty world0
   \<and> fst (GetBytes AllUnix EchoNormal 0 (sysOk [RdData [0x04]]) world0) = Returned [] (Some EOF)
   \<and> tty (snd (GetBytes AllUnix EchoNormal 0 (sysOk [RdData [0x04]]) world0)) = tty world0
   \<and> fst (GetBytes LinuxOnly EchoMask 0 (sysOk (typed ''ab'' @ [RdErr EIO])) world0) = Returned (bytes ''ab'') (Some EIO)
   \<and> tty (snd (GetBytes LinuxOnly EchoMask 0 (sysOk (typed ''ab'' @ [RdErr EIO])) world0)) = tty world0"
proof -
  have a1: "fst (GetBytes AllUnix EchoNormal 0 (sysOk (typed ''ab'' @ [RdData [0x0A]])) world0) = Returned (bytes ''ab'') None"
    by code_simp
  have a2: "fst (GetBytes AllUnix EchoNormal 0 (sysOk [RdData [0x04]]) world0) = Returned [] (Some EOF)"
    by code_simp
  have a3: "fst (GetBytes LinuxOnly EchoMask 0 (sysOk (typed ''ab'' @ [RdErr EIO])) world0) = Returned (bytes ''ab'') (Some EIO)"
    by code_simp
  have d: "tcsetDeferredErr (sysOk rs) = None" for rs by (simp add: sysOk_def)
  have b1: "tty (snd (GetBytes AllUnix EchoNormal 0 (sysOk (typed ''ab'' @ [RdData [0x0A]])) world0)) = tty world0"
    using GetBytes_restores_if_deferred_set_succeeds [OF surjective_pairing _ d] a1 by simp
  have b2: "tty (snd (GetBytes AllUnix EchoNormal 0 (sysOk [RdData [0x04]]) world0)) = tty world0"
    using GetBytes_restores_if_deferred_set_succeeds [OF surjective_pairing _ d] a2 by simp
  have b3: "tty (snd (GetBytes LinuxOnly EchoMask 0 (sysOk (typed ''ab'' @ [RdErr EIO])) world0)) = tty world0"
    using GetBytes_restores_if_deferred_set_succeeds [OF surjective_pairing _ d] a3 by simp
  show ?thesis using a1 a2 a3 b1 b2 b3 d by simp
qed

text \<open>
  C1 as stated fails: the terminal hangs up, the read fails with \<^verbatim>\<open>EIO\<close> and so does the
  deferred ioctl; \<^verbatim>\<open>GetBytes\<close> returns and the terminal keeps the derived configuration.
\<close>

theorem GetBytes_deferred_set_fails_counterexample:
  "fst (GetBytes AllUnix EchoNormal 0
         ((sysOk (typed ''ab'' @ [RdErr EIO]))\<lparr>tcsetDeferredErr := Some EIO\<rparr>) world0)
     = Returned (bytes ''ab'') (Some EIO)
   \<and> tty (snd (GetBytes AllUnix EchoNormal 0
         ((sysOk (typed ''ab'' @ [RdErr EIO]))\<lparr>tcsetDeferredErr := Some EIO\<rparr>) world0))
     \<noteq> tty world0"
  by code_simp

text \<open>
  C2, as amended.  When a read fails after the reads \<open>evs\<close> have left \<open>result\<close> in the
  buffer, \<^verbatim>\<open>GetBytes\<close> returns the error together with \<open>result\<close>: the statement is
  \<^verbatim>\<open>return result, err\<close>, and the bytes gathered so far are handed to the caller.
\<close>

theorem GetBytes_read_error_returns_buffer:
  assumes "checkIsTerminal s w" and "tcgetErr s stdoutFd = None"
    and "stdinReads s = evs @ ev # rest"
    and "Read ev = (buf, cnt, Some e)"
    and "feed (editorCfg r ech lim s (deriveMode r (tty w))) evs [] (screen w) = Some (result, scr)"
  shows "fst (GetBytes r ech lim s w) = Returned result (Some e)"
  using assms by (simp add: GetBytes_run loop_feed step_read_error)

theorem GetBytes_read_error_returns_buffer_witness:
  "checkIsTerminal (sysOk (typed ''hi'' @ [RdErr EIO, RdData [0x0A]])) world0
   \<and> tcgetErr (sysOk (typed ''hi'' @ [RdErr EIO, RdData [0x0A]])) stdoutFd = None
   \<and> stdinReads (sysOk (typed ''hi'' @ [RdErr EIO, RdData [0x0A]])) = typed ''hi'' @ RdErr EIO # [RdData [0x0A]]
   \<and> Read (RdErr EIO) = ([0, 0, 0, 0], 0, Some EIO)
   \<and> feed (editorCfg AllUnix EchoNormal 0 (sysOk (typed ''hi'' @ [RdErr EIO, RdData [0x0A]]))
             (deriveMode AllUnix (tty world0))) (typed ''hi'') [] (screen world0)
       = Some (bytes ''hi'', bytes ''hi'')
   \<and> fst (GetBytes AllUnix EchoNormal 0 (sysOk (typed ''hi'' @ [RdErr EIO, RdData [0x0A]])) world0)
       = Returned (bytes ''hi'') (Some EIO)"
proof -
  let ?s = "sysOk (typed ''hi'' @ [RdErr EIO, RdData [0x0A]])"
  have h1: "checkIsTerminal ?s world0" by code_simp
  have h2: "tcgetErr ?s stdoutFd = None" by code_simp
  have h3: "stdinReads ?s = typed ''hi'' @ RdErr EIO # [RdData [0x0A]]" by (simp add: sysOk_def)
  have h4: "Read (RdErr EIO) = ([0, 0, 0, 0], 0, Some EIO)" by (simp add: Read_def)
  have h5: "feed (editorCfg AllUnix EchoNormal 0 ?s (deriveMode AllUnix (tty world0)))
              (typed ''hi'') [] (screen world0) = Some (bytes ''hi'', bytes ''hi'')"
    by code_simp
  from GetBytes_read_error_returns_buffer [OF h1 h2 h3 h4 h5] h1 h2 h3 h4 h5
  show ?thesis by blast
qed

text \<open>
  C2 as stated fails: after \<^verbatim>\<open>h\<close> and \<^verbatim>\<open>i\<close> the read fails with \<^verbatim>\<open>EIO\<close>, and the two
  bytes come back with the error.
\<close>

theorem GetBytes_read_error_counterexample:
  "fst (GetBytes AllUnix EchoNormal 0 (sysOk (typed ''hi'' @ [RdErr EIO])) world0)
     = Returned (bytes ''hi'') (Some EIO)
   \<and> bytes ''hi'' \<noteq> []"
  by code_simp

text \<open>
  C3, as amended.  With \<^verbatim>\<open>foo bar \<close> (one trailing space) in the buffer, one word erase
  leaves \<^verbatim>\<open>foo \<close>: the scan passes the trailing spaces and the word before them in one
  go.  A second word erase leaves the empty buffer.  Shown on the cooked terminal, where
  word erase is \<^verbatim>\<open>^W\<close>, for both revisions and every echo mode.
\<close>

theorem werase_foo_bar:
  "fst (GetBytes r ech 0 (sysOk (typed ''foo bar '' @ [RdData [0x17], RdData [0x0A]])) world0)
     = Returned (bytes ''foo '') None
   \<and> fst (GetBytes r ech 0 (sysOk (typed ''foo bar '' @ [RdData [0x17], RdData [0x17], RdData [0x0A]])) world0)
     = Returned [] None"
  by (cases r; cases ech; hypsubst_thin; code_simp)

text \<open>
  C3 as stated fails: one word erase does not leave \<^verbatim>\<open>foo bar\<close>, and two do not leave
  \<^verbatim>\<open>foo \<close>.
\<close>

theorem werase_foo_bar_counterexample:
  "fst (GetBytes AllUnix EchoNormal 0 (sysOk (typed ''foo bar '' @ [RdData [0x17], RdData [0x0A]])) world0)
     \<noteq> Returned (bytes ''foo bar'') None
   \<and> fst (GetBytes AllUnix EchoNormal 0 (sysOk (typed ''foo bar '' @ [RdData [0x17], RdData [0x17], RdData [0x0A]])) world0)
     \<noteq> Returned (bytes ''foo '') None"
  by code_simp

text \<open>
  C4, as amended.  A read that is accepted adds all the bytes it delivered (at most
  four) to the buffer: the test is only that the first rune decoded from the read buffer
  is graphic, so the bytes need not be exactly one complete character; a read whose
  first rune is not graphic leaves the buffer unchanged.  If every read delivers whole
  characters only, the buffer is a valid sequence of complete encodings at every
  observation point, and so is the result \<^verbatim>\<open>GetBytes\<close> returns.
\<close>

theorem buffer_valid_if_reads_whole:
  "(d \<noteq> [] \<and> \<not> controlByte c (d ! 0) \<longrightarrow>
      bufferOf (step c (RdData d) buf scr) =
        (if IsGraphic (graphic c) (fst (DecodeRune (take 4 (d @ [0, 0, 0, 0]))))
         then buf @ take 4 d else buf))
   \<and> ((\<forall>d. RdData d \<in> set evs \<longrightarrow> Valid (take 4 d)) \<and> feed c evs [] scr = Some (result, scr')
        \<longrightarrow> Valid result)
   \<and> ((\<forall>d. RdData d \<in> set (stdinReads s) \<longrightarrow> Valid (take 4 d))
        \<and> fst (GetBytes r ech lim s w) = Returned result e \<longrightarrow> Valid result)"
proof (intro conjI impI)
  assume a: "d \<noteq> [] \<and> \<not> controlByte c (d ! 0)"
  show "bufferOf (step c (RdData d) buf scr) =
      (if IsGraphic (graphic c) (fst (DecodeRune (take 4 (d @ [0, 0, 0, 0]))))
       then buf @ take 4 d else buf)"
  proof (cases "IsGraphic (graphic c) (fst (DecodeRune (take 4 (d @ [0, 0, 0, 0]))))")
    case True
    with a step_accept [of d c buf scr] show ?thesis by simp
  next
    case False
    with a step_discard [of d c buf scr] show ?thesis by simp
  qed
next
  assume "(\<forall>d. RdData d \<in> set evs \<longrightarrow> Valid (take 4 d)) \<and> feed c evs [] scr = Some (result, scr')"
  then show "Valid result" using feed_Valid [of evs "[]" c scr result scr'] by simp
next
  assume a: "(\<forall>d. RdData d \<in> set (stdinReads s) \<longrightarrow> Valid (take 4 d))
      \<and> fst (GetBytes r ech lim s w) = Returned result e"
  show "Valid result"
  proof (cases "checkIsTerminal s w \<and> tcgetErr s stdoutFd = None")
    case True
    then have "fst (loop (editorCfg r ech lim s (deriveMode r (tty w))) (stdinReads s) []
        (screen w)) = Returned result e"
      using a GetBytes_run(1) [of s w r ech lim] by simp
    then show ?thesis
      using loop_Valid [of "stdinReads s" "[]" _ "screen w" result e] a
      by (metis Valid_Nil prod.collapse)
  next
    case False
    show ?thesis
    proof (cases "checkIsTerminal s w")
      case True
      with False obtain y where "tcgetErr s stdoutFd = Some y" by auto
      from GetBytes_get_fails [OF True this, of r ech lim] a show ?thesis by simp
    next
      case False
      then show ?thesis using a by (simp add: GetBytes_def)
    qed
  qed
qed

theorem buffer_valid_if_reads_whole_witness:
  "[0x68 :: byte] \<noteq> [] \<and> \<not> controlByte (cfg0 AllUnix EchoNone 0) 0x68
   \<and> bufferOf (step (cfg0 AllUnix EchoNone 0) (RdData [0x68]) [] []) = [0x68]
   \<and> Valid [0x68] \<and> Valid [0xC3, 0xA9] \<and> Valid [0x7F] \<and> Valid [0x0A]
   \<and> feed (cfg0 AllUnix EchoNone 0) [RdData [0x68], RdData [0xC3, 0xA9], RdData [0x7F]] [] []
       = Some ([0x68], [])
   \<and> fst (GetBytes AllUnix EchoNone 0 (sysOk [RdData [0x68], RdData [0xC3, 0xA9], RdData [0x0A]]) world0)
       = Returned [0x68, 0xC3, 0xA9] None
   \<and> Valid [0x68, 0xC3, 0xA9]"
proof -
  let ?c = "cfg0 AllUnix EchoNone 0"
  let ?evs = "[RdData [0x68], RdData [0xC3, 0xA9], RdData [0x7F]]"
  let ?s = "sysOk [RdData [0x68], RdData [0xC3, 0xA9], RdData [0x0A]]"
  have n: "[0x68 :: byte] \<noteq> []" by simp
  have k: "\<not> controlByte ?c 0x68" by code_simp
  have g: "IsGraphic (graphic ?c) (fst (DecodeRune (take 4 ([0x68] @ [0, 0, 0, 0]))))"
    by code_simp
  have v1: "Valid [0x68]" by code_simp
  have v2: "Valid [0xC3, 0xA9]" by code_simp
  have v3: "Valid [0x7F]" by code_simp
  have v4: "Valid [0x0A]" by code_simp
  have f: "feed ?c ?evs [] [] = Some ([0x68], [])" by code_simp
  have r: "fst (GetBytes AllUnix EchoNone 0 ?s world0) = Returned [0x68, 0xC3, 0xA9] None"
    by code_simp
  have h1: "\<forall>d. RdData d \<in> set ?evs \<longrightarrow> Valid (take 4 d)" using v1 v2 v3 by auto
  have h2: "\<forall>d. RdData d \<in> set (stdinReads ?s) \<longrightarrow> Valid (take 4 d)"
    using v1 v2 v4 by (auto simp: sysOk_def)
  from buffer_valid_if_reads_whole [where d = "[0x68]" and c = ?c and buf = "[]" and scr = "[]"]
    n k g
  have a: "bufferOf (step ?c (RdData [0x68]) [] []) = [0x68]" by simp
  from buffer_valid_if_reads_whole [where c = ?c and evs = ?evs and scr = "[]"
      and result = "[0x68]" and scr' = "[]"] h1 f
  have b: "Valid [0x68]" by blast
  from buffer_valid_if_reads_whole [where s = ?s and r = AllUnix and ech = EchoNone and lim = 0
      and w = world0 and result = "[0x68, 0xC3, 0xA9]" and e = None] h2 r
  have c: "Valid [0x68, 0xC3, 0xA9]" by blast
  from n k a b v2 v3 v4 f r c show ?thesis by blast
qed

text \<open>
  C4 as stated fails: the user pastes \<^verbatim>\<open>aaa\<close> and a character of two bytes.  The first
  read delivers four bytes, three characters and the first byte of the fourth; they are
  not one complete character, yet all four are added, and the buffer then ends in a cut-off
  character.
\<close>

theorem buffer_partial_character_counterexample:
  "feed (cfg0 AllUnix EchoNormal 0) [RdData [0x61, 0x61, 0x61, 0xC3]] [] []
     = Some ([0x61, 0x61, 0x61, 0xC3], [0x61, 0x61, 0x61, 0xC3])
   \<and> \<not> oneRune [0x61, 0x61, 0x61, 0xC3]
   \<and> \<not> Valid [0x61, 0x61, 0x61, 0xC3]"
  by code_simp

text \<open>
  C5.  The reads deliver the units \<open>us\<close>, each the complete encoding of one graphic
  character whose first byte is none of the bytes the loop singles out, and then the
  line terminator; the limit is zero or larger than the number of units.  Then
  \<^verbatim>\<open>GetBytes\<close> returns the concatenation of the units, and the screen has grown by what
  the echo mode shows for them: under \<^verbatim>\<open>EchoMask\<close> one \<^verbatim>\<open>*\<close> for each unit, whatever
  its length in bytes.  (There is an error, \<^verbatim>\<open>io.EOF\<close>, only if there is no unit and the
  terminal has the line feed as its end-of-input byte.)
\<close>

theorem GetBytes_graphic_units:
  assumes "checkIsTerminal s w" and "tcgetErr s stdoutFd = None"
    and "c = editorCfg r ech lim s (deriveMode r (tty w))"
    and "stdinReads s = map RdData us @ RdData (linefeed # t) # rest"
    and "\<forall>u\<in>set us. oneRune u \<and> \<not> controlByte c (u ! 0) \<and> IsGraphic (graphic c) (fst (DecodeRune u))"
    and "lim = 0 \<or> length us < unat lim"
  shows "fst (GetBytes r ech lim s w)
           = Returned (concat us) (if vEof c = linefeed \<and> us = [] then Some EOF else None)
         \<and> screen (snd (GetBytes r ech lim s w)) = screen w @ shown ech us
         \<and> shown EchoMask us = replicate (length us) maskChar"
proof -
  have e: "echo c = ech" and l: "limit c = lim" using assms(3) by (simp_all add: editorCfg_def)
  have f: "feed c (map RdData us) [] (screen w) = Some (concat us, screen w @ shown ech us)"
    using feed_units [of us c "screen w"] assms(5,6) e l by simp
  have "loop c (stdinReads s) [] (screen w)
      = loop c (RdData (linefeed # t) # rest) (concat us) (screen w @ shown ech us)"
    using loop_feed [OF f] assms(4) by simp
  also have "\<dots> = (Returned (concat us) (if vEof c = linefeed \<and> us = [] then Some EOF else None),
      screen w @ shown ech us)"
    using concat_oneRune_Nil [of us] assms(5) by (simp add: step_linefeed)
  finally have "loop c (stdinReads s) [] (screen w)
      = (Returned (concat us) (if vEof c = linefeed \<and> us = [] then Some EOF else None),
         screen w @ shown ech us)" .
  then show ?thesis
    using GetBytes_run [OF assms(1,2), of r ech lim] assms(3) by (simp add: shown_def)
qed

theorem GetBytes_graphic_units_witness:
  "checkIsTerminal (sysOk [RdData [0x68], RdData [0xC3, 0xA9], RdData [0x0A]]) world0
   \<and> oneRune [0x68] \<and> oneRune [0xC3, 0xA9]
   \<and> \<not> controlByte (cfg0 AllUnix EchoMask 0) 0x68 \<and> \<not> controlByte (cfg0 AllUnix EchoMask 0) 0xC3
   \<and> IsGraphic noneAbove (fst (DecodeRune [0x68]))
   \<and> IsGraphic noneAbove (fst (DecodeRune [0xC3, 0xA9]))
   \<and> fst (GetBytes AllUnix EchoMask 0 (sysOk [RdData [0x68], RdData [0xC3, 0xA9], RdData [0x0A]]) world0)
       = Returned [0x68, 0xC3, 0xA9] None
   \<and> screen (snd (GetBytes AllUnix EchoMask 0
         (sysOk [RdData [0x68], RdData [0xC3, 0xA9], RdData [0x0A]]) world0)) = [0x2A, 0x2A]"
proof -
  let ?s = "sysOk [RdData [0x68], RdData [0xC3, 0xA9], RdData [0x0A]]"
  let ?c = "editorCfg AllUnix EchoMask 0 ?s (deriveMode AllUnix (tty world0))"
  let ?us = "[[0x68], [0xC3, 0xA9]] :: byte list list"
  have c: "?c = cfg0 AllUnix EchoMask 0" by (rule editorCfg_cooked)
  have h1: "checkIsTerminal ?s world0" by code_simp
  have h2: "tcgetErr ?s stdoutFd = None" by code_simp
  have h4: "stdinReads ?s = map RdData ?us @ RdData (linefeed # []) # []"
    by (simp add: sysOk_def linefeed_def)
  have u1: "oneRune [0x68]" by code_simp
  have u2: "oneRune [0xC3, 0xA9]" by code_simp
  have k1: "\<not> controlByte (cfg0 AllUnix EchoMask 0) 0x68" by code_simp
  have k2: "\<not> controlByte (cfg0 AllUnix EchoMask 0) 0xC3" by code_simp
  have g1: "IsGraphic noneAbove (fst (DecodeRune [0x68]))" by code_simp
  have g2: "IsGraphic noneAbove (fst (DecodeRune [0xC3, 0xA9]))" by code_simp
  have gc: "graphic (cfg0 AllUnix EchoMask 0) = noneAbove" by (simp add: cfg0_def)
  have h5: "\<forall>u\<in>set ?us. oneRune u \<and> \<not> controlByte ?c (u ! 0) \<and> IsGraphic (graphic ?c) (fst (DecodeRune u))"
    using u1 u2 k1 k2 g1 g2 gc unfolding c by simp
  have h6: "(0 :: byte) = 0 \<or> length ?us < unat (0 :: byte)" by simp
  have v: "vEof ?c \<noteq> linefeed" unfolding c by code_simp
  have w: "screen world0 = []" by (simp add: world0_def)
  from GetBytes_graphic_units [OF h1 h2 refl h4 h5 h6] v w
  have "fst (GetBytes AllUnix EchoMask 0 ?s world0) = Returned [0x68, 0xC3, 0xA9] None
      \<and> screen (snd (GetBytes AllUnix EchoMask 0 ?s world0)) = [0x2A, 0x2A]"
    by (simp add: shown_def maskChar_def)
  with h1 u1 u2 k1 k2 g1 g2 show ?thesis by simp
qed

text \<open>
  C6.  When a read delivers the end-of-input byte first, \<^verbatim>\<open>GetBytes\<close> returns: with an
  empty buffer the result is empty and the error is \<^verbatim>\<open>io.EOF\<close>; with a buffer that is not
  empty the result is the buffer and there is no error.
\<close>

theorem GetBytes_eof_byte:
  assumes "checkIsTerminal s w" and "tcgetErr s stdoutFd = None"
    and "stdinReads s = evs @ RdData (b # t) # rest"
    and "b = vEof (editorCfg r ech lim s (deriveMode r (tty w)))"
    and "feed (editorCfg r ech lim s (deriveMode r (tty w))) evs [] (screen w) = Some (result, scr)"
  shows "fst (GetBytes r ech lim s w) = Returned result (if result = [] then Some EOF else None)"
proof -
  have "Read (RdData (b # t)) = (take 4 ((b # t) @ [0, 0, 0, 0]), min 4 (length (b # t)), None)"
    by (rule Read_data) simp
  moreover have "take 4 ((b # t) @ [0, 0, 0, 0]) ! 0 = b" by simp
  ultimately have "step (editorCfg r ech lim s (deriveMode r (tty w))) (RdData (b # t)) result scr
      = Done (Returned result (if result = [] then Some EOF else None)) scr"
    using assms(4) by (intro step_eof) auto
  then show ?thesis using assms by (simp add: GetBytes_run loop_feed)
qed

theorem GetBytes_eof_byte_witness:
  "checkIsTerminal (sysOk [RdData [0x04], RdData [0x61]]) world0
   \<and> tcgetErr (sysOk [RdData [0x04], RdData [0x61]]) stdoutFd = None
   \<and> vEof (editorCfg AllUnix EchoNormal 0 (sysOk [RdData [0x04], RdData [0x61]])
             (deriveMode AllUnix (tty world0))) = 0x04
   \<and> fst (GetBytes AllUnix EchoNormal 0 (sysOk [RdData [0x04], RdData [0x61]]) world0)
       = Returned [] (Some EOF)
   \<and> checkIsTerminal (sysOk (typed ''no'' @ [RdData [0x04], RdData [0x61]])) world0
   \<and> feed (editorCfg AllUnix EchoNormal 0 (sysOk (typed ''no'' @ [RdData [0x04], RdData [0x61]]))
             (deriveMode AllUnix (tty world0))) (typed ''no'') [] (screen world0)
       = Some (bytes ''no'', bytes ''no'')
   \<and> fst (GetBytes AllUnix EchoNormal 0 (sysOk (typed ''no'' @ [RdData [0x04], RdData [0x61]])) world0)
       = Returned (bytes ''no'') None"
proof -
  let ?s = "sysOk [RdData [0x04], RdData [0x61]]"
  let ?t = "sysOk (typed ''no'' @ [RdData [0x04], RdData [0x61]])"
  have s1: "checkIsTerminal ?s world0" by code_simp
  have s2: "tcgetErr ?s stdoutFd = None" by code_simp
  have s3: "stdinReads ?s = [] @ RdData (0x04 # []) # [RdData [0x61]]" by (simp add: sysOk_def)
  have s4: "0x04 = vEof (editorCfg AllUnix EchoNormal 0 ?s (deriveMode AllUnix (tty world0)))"
    by code_simp
  have s5: "feed (editorCfg AllUnix EchoNormal 0 ?s (deriveMode AllUnix (tty world0))) []
              [] (screen world0) = Some ([], screen world0)"
    by simp
  have t1: "checkIsTerminal ?t world0" by code_simp
  have t2: "tcgetErr ?t stdoutFd = None" by code_simp
  have t3: "stdinReads ?t = typed ''no'' @ RdData (0x04 # []) # [RdData [0x61]]"
    by (simp add: sysOk_def)
  have t4: "0x04 = vEof (editorCfg AllUnix EchoNormal 0 ?t (deriveMode AllUnix (tty world0)))"
    by code_simp
  have t5: "feed (editorCfg AllUnix EchoNormal 0 ?t (deriveMode AllUnix (tty world0)))
              (typed ''no'') [] (screen world0) = Some (bytes ''no'', bytes ''no'')"
    by code_simp
  have n: "bytes ''no'' \<noteq> []" by (simp add: bytes_def)
  from GetBytes_eof_byte [OF s1 s2 s3 s4 s5] GetBytes_eof_byte [OF t1 t2 t3 t4 t5] n
    s1 s2 s4 [symmetric] t1 t5
  show ?thesis by simp
qed

text \<open>
  The test of the limit.  After the reads \<open>evs\<close> the loop is running with \<open>result\<close> in
  the buffer, and the next read delivers \<open>d\<close>, which is accepted.  If the limit is
  positive and the buffer now counts exactly as many characters as the limit says,
  \<^verbatim>\<open>GetBytes\<close> returns the buffer without an error, whatever the later reads \<open>rest\<close>
  hold.  In every other case the loop goes on: when the limit is zero, when the count is
  still below the limit, and also when the count has passed the limit.
\<close>

lemma GetBytes_limit:
  assumes "checkIsTerminal s w" and "tcgetErr s stdoutFd = None"
    and "c = editorCfg r ech lim s (deriveMode r (tty w))"
    and "stdinReads s = evs @ RdData d # rest"
    and "feed c evs [] (screen w) = Some (result, scr)"
    and "d \<noteq> []" and "\<not> controlByte c (d ! 0)"
    and "IsGraphic (graphic c) (fst (DecodeRune (take 4 (d @ [0, 0, 0, 0]))))"
  shows "(0 < lim \<and> RuneCount (result @ take 4 d) = unat lim \<longrightarrow>
            fst (GetBytes r ech lim s w) = Returned (result @ take 4 d) None)
       \<and> (\<not> (0 < lim \<and> RuneCount (result @ take 4 d) = unat lim) \<longrightarrow>
            feed c (evs @ [RdData d]) [] (screen w)
              = Some (result @ take 4 d, scr @ shown ech [take 4 d]))"
proof -
  have e: "echo c = ech" and l: "limit c = lim" using assms(3) by (simp_all add: editorCfg_def)
  note st = step_accept [OF assms(6,7,8), of result scr, unfolded e l]
  have run: "loop c (stdinReads s) [] (screen w) = loop c (RdData d # rest) result scr"
    using loop_feed [OF assms(5)] assms(4) by simp
  show ?thesis
  proof (intro conjI impI)
    assume hit: "0 < lim \<and> RuneCount (result @ take 4 d) = unat lim"
    then have "loop c (stdinReads s) [] (screen w)
        = (Returned (result @ take 4 d) None, scr @ shown ech [take 4 d])"
      using run st by simp
    then show "fst (GetBytes r ech lim s w) = Returned (result @ take 4 d) None"
      using GetBytes_run(1) [OF assms(1,2), of r ech lim] assms(3) by simp
  next
    assume "\<not> (0 < lim \<and> RuneCount (result @ take 4 d) = unat lim)"
    then show "feed c (evs @ [RdData d]) [] (screen w)
        = Some (result @ take 4 d, scr @ shown ech [take 4 d])"
      using st assms(5) by (simp add: feed_append)
  qed
qed

lemma GetBytes_limit_witness:
  "checkIsTerminal (sysOk (typed ''abc'')) world0
   \<and> feed (cfg0 LinuxOnly EchoNormal 2) (typed ''a'') [] [] = Some (bytes ''a'', bytes ''a'')
   \<and> \<not> controlByte (cfg0 LinuxOnly EchoNormal 2) 0x62
   \<and> IsGraphic noneAbove (fst (DecodeRune [0x62, 0, 0, 0]))
   \<and> (0 :: byte) < 2 \<and> RuneCount (bytes ''a'' @ [0x62]) = unat (2 :: byte)
   \<and> fst (GetBytes LinuxOnly EchoNormal 2 (sysOk (typed ''abc'')) world0) = Returned (bytes ''ab'') None
   \<and> RuneCount ([] @ [0x61]) \<noteq> unat (2 :: byte)
   \<and> feed (cfg0 LinuxOnly EchoNormal 2) ([] @ [RdData [0x61]]) [] [] = Some ([0x61], [0x61])"
proof -
  let ?s = "sysOk (typed ''abc'')"
  let ?c = "editorCfg LinuxOnly EchoNormal 2 ?s (deriveMode LinuxOnly (tty world0))"
  have c: "?c = cfg0 LinuxOnly EchoNormal 2" by (rule editorCfg_cooked)
  have w: "screen world0 = []" by (simp add: world0_def)
  have h1: "checkIsTerminal ?s world0" by code_simp
  have h2: "tcgetErr ?s stdoutFd = None" by code_simp
  have h4: "stdinReads ?s = typed ''a'' @ RdData [0x62] # typed ''c''"
    by (simp add: sysOk_def typed_def bytes_def)
  have h4': "stdinReads ?s = [] @ RdData [0x61] # typed ''bc''"
    by (simp add: sysOk_def typed_def bytes_def)
  have f: "feed (cfg0 LinuxOnly EchoNormal 2) (typed ''a'') [] [] = Some (bytes ''a'', bytes ''a'')"
    by code_simp
  have h5: "feed ?c (typed ''a'') [] (screen world0) = Some (bytes ''a'', bytes ''a'')"
    unfolding c w by (rule f)
  have h5': "feed ?c [] [] (screen world0) = Some ([], [])" by (simp add: w)
  have h6: "[0x62 :: byte] \<noteq> []" "[0x61 :: byte] \<noteq> []" by simp_all
  have k: "\<not> controlByte (cfg0 LinuxOnly EchoNormal 2) 0x62" by code_simp
  have k': "\<not> controlByte (cfg0 LinuxOnly EchoNormal 2) 0x61" by code_simp
  have h7: "\<not> controlByte ?c ([0x62] ! 0)" unfolding c using k by simp
  have h7': "\<not> controlByte ?c ([0x61] ! 0)" unfolding c using k' by simp
  have g: "IsGraphic noneAbove (fst (DecodeRune [0x62, 0, 0, 0]))" by code_simp
  have g': "IsGraphic noneAbove (fst (DecodeRune [0x61, 0, 0, 0]))" by code_simp
  have gc: "graphic (cfg0 LinuxOnly EchoNormal 2) = noneAbove" by (simp add: cfg0_def)
  have h8: "IsGraphic (graphic ?c) (fst (DecodeRune (take 4 ([0x62] @ [0, 0, 0, 0]))))"
    unfolding c gc using g by simp
  have h8': "IsGraphic (graphic ?c) (fst (DecodeRune (take 4 ([0x61] @ [0, 0, 0, 0]))))"
    unfolding c gc using g' by simp
  have p: "(0 :: byte) < 2" by simp
  have n: "RuneCount (bytes ''a'' @ [0x62]) = unat (2 :: byte)" by code_simp
  have n': "RuneCount ([] @ [0x61]) \<noteq> unat (2 :: byte)" by code_simp
  have b: "bytes ''a'' @ [0x62] = bytes ''ab''" by (simp add: bytes_def)
  from GetBytes_limit [OF h1 h2 refl h4 h5 h6(1) h7 h8] p n b
  have r1: "fst (GetBytes LinuxOnly EchoNormal 2 ?s world0) = Returned (bytes ''ab'') None"
    by simp
  from GetBytes_limit [OF h1 h2 refl h4' h5' h6(2) h7' h8'] n'
  have r2: "feed (cfg0 LinuxOnly EchoNormal 2) ([] @ [RdData [0x61]]) [] [] = Some ([0x61], [0x61])"
    unfolding c w by (simp add: shown_def)
  from h1 f k g p n r1 n' r2 show ?thesis by blast
qed

text \<open>
  The limit on whole characters: when the reads deliver one graphic character each, the
  read that brings the count to the limit ends the call, and the later reads are not
  looked at.
\<close>

lemma GetBytes_limit_units:
  assumes "checkIsTerminal s w" and "tcgetErr s stdoutFd = None"
    and "c = editorCfg r ech lim s (deriveMode r (tty w))"
    and "stdinReads s = map RdData (us @ [u]) @ rest"
    and "\<forall>v\<in>set (us @ [u]). oneRune v \<and> \<not> controlByte c (v ! 0) \<and> IsGraphic (graphic c) (fst (DecodeRune v))"
    and "unat lim = Suc (length us)"
  shows "fst (GetBytes r ech lim s w) = Returned (concat (us @ [u])) None"
proof -
  have e: "echo c = ech" and l: "limit c = lim" using assms(3) by (simp_all add: editorCfg_def)
  have pos: "0 < lim" using assms(6) by (cases "lim = 0") (simp_all add: word_greater_zero_iff)
  have u: "oneRune u" "\<not> controlByte c (u ! 0)" "IsGraphic (graphic c) (fst (DecodeRune u))"
    using assms(5) by simp_all
  have ne: "u \<noteq> []" using u(1) by (simp add: oneRune_def)
  have f: "feed c (map RdData us) [] (screen w) = Some (concat us, screen w @ shown ech us)"
    using feed_units [of us c "screen w"] assms(5,6) e l by simp
  have cnt: "RuneCount (concat us @ u) = Suc (length us)"
    using RuneCount_concat [of "us @ [u]" "[]"] assms(5) by simp
  have st: "step c (RdData u) (concat us) (screen w @ shown ech us)
      = Done (Returned (concat us @ u) None) (screen w @ shown ech us @ shown ech [u])"
    using step_accept [of u c "concat us" "screen w @ shown ech us"] ne u cnt pos assms(6)
      oneRune_buf [OF u(1)] e l
    by simp
  have "loop c (stdinReads s) [] (screen w)
      = loop c (RdData u # rest) (concat us) (screen w @ shown ech us)"
    using loop_feed [OF f] assms(4) by simp
  then have "fst (loop c (stdinReads s) [] (screen w)) = Returned (concat us @ u) None"
    using st by simp
  then show ?thesis using GetBytes_run(1) [OF assms(1,2), of r ech lim] assms(3) by simp
qed

text \<open>
  C7 where one read delivers several characters.  The limit is 2 and the first read
  delivers \<^verbatim>\<open>abc\<close>, as a paste does.  The count goes from 0 to 3 and is never equal to
  the limit, so the call does not end by itself: with no further input it blocks, and
  with a line feed it returns three characters, one more than the limit.  The comment on
  \<^verbatim>\<open>GetBytes\<close> calls the limit the maximal number of characters to get.  When every read
  delivers one character the call ends with the character that reaches the limit (lemma
  \<open>GetBytes_limit_units\<close>).
\<close>

theorem limit_passed_over:
  "GetBytes AllUnix EchoNormal 2 (sysOk [RdData [0x61, 0x62, 0x63], RdData [0x0A]]) world0
     = (Returned [0x61, 0x62, 0x63] None, world0\<lparr>screen := [0x61, 0x62, 0x63]\<rparr>)
   \<and> RuneCount [0x61, 0x62, 0x63] = 3
   \<and> fst (GetBytes AllUnix EchoNormal 2 (sysOk [RdData [0x61, 0x62, 0x63]]) world0) = Blocked"
  by code_simp

text \<open>
  C8 on the Linux-only revision: a kill on the empty buffer under normal echo erases zero
  columns, and \<^verbatim>\<open>erase\<close> writes \<^verbatim>\<open>ESC [ 0 D ESC [ K\<close> all the same.  The revision for all
  Unix systems guards the writes with \<^verbatim>\<open>x > 0\<close> (lemma \<open>erase_AllUnix_zero_width\<close>).
\<close>

theorem erase_zero_width_LinuxOnly:
  "GetBytes LinuxOnly EchoNormal 0 (sysOk [RdData [0x15], RdData [0x0A]]) world0
     = (Returned [] None, world0\<lparr>screen := [0x1B, 0x5B, 0x30, 0x44, 0x1B, 0x5B, 0x4B]\<rparr>)"
  by code_simp

text \<open>
  C9 where the ioctl that applies the derived configuration fails with \<^verbatim>\<open>EIO\<close>: the
  error is dropped, the input is read and echoed, and \<^verbatim>\<open>GetBytes\<close> returns it without an
  error.  A failure of the get-configuration ioctl is returned (lemma
  \<open>GetBytes_get_fails\<close>).
\<close>

theorem raw_set_error_ignored:
  "GetBytes AllUnix EchoNormal 0 ((sysOk (typed ''ok'' @ [RdData [0x0A]]))\<lparr>tcsetErr := Some EIO\<rparr>) world0
     = (Returned (bytes ''ok'') None, world0\<lparr>screen := bytes ''ok''\<rparr>)"
  by code_simp

text \<open>
  C10. \<^verbatim>\<open>IsTerminal(fd)\<close> is false exactly when the get-configuration ioctl on \<open>fd\<close> fails
  with \<^verbatim>\<open>ENOTTY\<close>; when the ioctl fails with any other error, such as \<^verbatim>\<open>EBADF\<close> for a
  closed descriptor, \<^verbatim>\<open>IsTerminal\<close> is true.
\<close>

theorem IsTerminal_false_iff_ENOTTY:
  "IsTerminal s w fd = (IoctlGetTermios s w fd \<noteq> Inl ENOTTY)"
  by (auto simp: IsTerminal_def split: sum.splits)

end
